theory Spec2Isabelle
  imports Main "HOL-Library.Word"
begin

section \<open>Values, errors and the mutable state of a run\<close>

text \<open>
  JavaScript values, as far as the runner and the \<open>toEqual\<close> matcher look at them.
  An object is a plain one, without accessors and without a \<open>toJSON\<close> method: the list of
  its own enumerable properties in the order in which they are enumerated (the order of
  insertion, for keys that are not written like array indices); a function value carries
  no data. The numbers are the integers from \<open>-2^53\<close> to \<open>2^53 - 1\<close>, as signed words of
  54 bits: a JavaScript number holds each of them exactly, and writes it in decimal.
\<close>

datatype jsval =
    Undefined
  | Null
  | Bool bool
  | Num "54 word"
  | Str string
  | Arr "jsval list"
  | Obj "(string \<times> jsval) list"
  | Func

text \<open>What a \<open>throw\<close> carries: an \<open>Error\<close> object with its message, or any other value.\<close>

datatype thrown = Error string | Thrown jsval

fun truthy :: "jsval \<Rightarrow> bool" where
  "truthy Undefined = False"
| "truthy Null = False"
| "truthy (Bool b) = b"
| "truthy (Num n) = (n \<noteq> 0)"
| "truthy (Str s) = (s \<noteq> [])"
| "truthy (Arr xs) = True"
| "truthy (Obj ps) = True"
| "truthy Func = True"

fun truthy_thrown :: "thrown \<Rightarrow> bool" where
  "truthy_thrown (Error m) = True"
| "truthy_thrown (Thrown v) = truthy v"

text \<open>
  Context objects live in a store and are passed by address, as \<open>this\<close>. The memory that
  the code of a test file can reach is the store of objects and its own variables
  (\<open>globals\<close>, of any type).
\<close>

type_synonym addr = nat
type_synonym object = "string \<rightharpoonup> jsval"

record 'u mem =
  objects :: "addr \<rightharpoonup> object"
  globals :: 'u

text \<open>
  A hook or a test body is called with \<open>this\<close> and runs its synchronous part at once; what
  it returns is awaited. \<open>Returns d\<close>: the awaited value is there after \<open>d\<close> milliseconds
  (\<open>0\<close> for a plain return); \<open>Throws d e\<close>: it throws, or its promise rejects, with \<open>e\<close>
  after \<open>d\<close> milliseconds; \<open>Never\<close>: its promise never settles.
\<close>

datatype settled = Returns nat | Throws nat thrown | Never

type_synonym 'u jsfun = "addr \<Rightarrow> 'u mem \<Rightarrow> settled \<times> 'u mem"

record 'u hook =
  hook_name :: string
  hook_fn :: "'u jsfun"

record 'u hooks =
  beforeAll :: "'u hook list"
  afterAll :: "'u hook list"
  beforeEach :: "'u hook list"
  afterEach :: "'u hook list"

text \<open>
  \<open>class Test\<close>: \<open>options\<close> is \<open>{timeout: null, retry: 0, tags: []}\<close> overwritten by the
  options given; \<open>timeout = None\<close> is \<open>null\<close>. The tags are never read.
\<close>

record 'u test =
  title :: string
  testFn :: "'u jsfun"
  timeout :: "int option"
  retry :: int
  t_only :: bool
  t_skip :: bool

text \<open>
  \<open>class Suite\<close>. \<open>s_context\<close> is the address of the object in \<open>suite.context\<close>; the two
  caches are \<open>None\<close> for \<open>null\<close>.
\<close>

datatype 'u suite = Suite
  (s_title: string)
  (tests: "'u test list")
  (suites: "'u suite list")
  (hooks: "'u hooks")
  (s_context: addr)
  (s_only: bool)
  (s_skip: bool)
  (mergedBeforeEach: "'u hook list option")
  (mergedAfterEach: "'u hook list option")

section \<open>The hook composer\<close>

text \<open>
  \<open>computeMergedHooks(suite, parentBefore, parentAfter)\<close>: fills the two caches when
  \<open>suite.mergedBeforeEach\<close> is \<open>null\<close> (an array, even an empty one, is truthy), and
  returns what the caches hold. The suite is returned with its caches as the call leaves
  them.
\<close>

fun computeMergedHooks ::
  "'u suite \<Rightarrow> 'u hook list \<Rightarrow> 'u hook list \<Rightarrow>
     ('u hook list option \<times> 'u hook list option) \<times> 'u suite" where
  "computeMergedHooks (Suite t ts ss hk c on sk mb ma) parentBefore parentAfter =
     (case mb of
        None \<Rightarrow>
          ((Some (parentBefore @ beforeEach hk), Some (afterEach hk @ parentAfter)),
           Suite t ts ss hk c on sk
             (Some (parentBefore @ beforeEach hk)) (Some (afterEach hk @ parentAfter)))
      | Some b \<Rightarrow> ((mb, ma), Suite t ts ss hk c on sk mb ma))"

section \<open>Asynchronous functions\<close>

text \<open>
  A call of an \<open>async\<close> function runs synchronously up to its first \<open>await\<close> and hands
  back a promise; each later piece runs, without interruption, when what it awaited has
  settled. A computation over a state \<open>'s\<close> therefore maps the state at the call to the
  state it leaves and to where its promise stands: fulfilled (\<open>Done\<close>), rejected
  (\<open>Fail\<close>), never to settle (\<open>Hang\<close>), or suspended at an \<open>await\<close> with the rest of
  the function, itself a computation.
\<close>

datatype ('s, 'a) susp =
    Done 'a
  | Fail thrown
  | Hang
  | Await "'s \<Rightarrow> 's \<times> ('s, 'a) susp"

type_synonym ('s, 'a) comp = "'s \<Rightarrow> 's \<times> ('s, 'a) susp"

definition ret :: "'a \<Rightarrow> ('s, 'a) comp" where
  "ret a s = (s, Done a)"

definition throw :: "thrown \<Rightarrow> ('s, 'a) comp" where
  "throw e s = (s, Fail e)"

definition never :: "('s, 'a) comp" where
  "never s = (s, Hang)"

definition act :: "('s \<Rightarrow> 's) \<Rightarrow> ('s, unit) comp" where
  "act f s = (f s, Done ())"

definition suspend :: "('s, 'a) comp \<Rightarrow> ('s, 'a) comp" where
  "suspend c s = (s, Await c)"

text \<open>Sequencing: \<open>f\<close> is the rest of the function after the statement \<open>c\<close>.\<close>

primrec thenSusp :: "('s, 'a) susp \<Rightarrow> ('a \<Rightarrow> ('s, 'b) comp) \<Rightarrow> ('s, 'b) comp" where
  "thenSusp (Done a) f = f a"
| "thenSusp (Fail e) f = (\<lambda>s. (s, Fail e))"
| "thenSusp Hang f = (\<lambda>s. (s, Hang))"
| "thenSusp (Await k) f =
     (\<lambda>s. (s, Await (\<lambda>s'. case map_prod id (\<lambda>r. thenSusp r f) (k s') of (s'', c) \<Rightarrow> c s'')))"

definition andThen :: "('s, 'a) comp \<Rightarrow> ('a \<Rightarrow> ('s, 'b) comp) \<Rightarrow> ('s, 'b) comp" where
  "andThen c f s = (case c s of (s', r) \<Rightarrow> thenSusp r f s')"

text \<open>\<open>try { c } catch (e) { h e }\<close>.\<close>

primrec catchSusp :: "('s, 'a) susp \<Rightarrow> (thrown \<Rightarrow> ('s, 'a) comp) \<Rightarrow> ('s, 'a) comp" where
  "catchSusp (Done a) h = (\<lambda>s. (s, Done a))"
| "catchSusp (Fail e) h = h e"
| "catchSusp Hang h = (\<lambda>s. (s, Hang))"
| "catchSusp (Await k) h =
     (\<lambda>s. (s, Await (\<lambda>s'. case map_prod id (\<lambda>r. catchSusp r h) (k s') of (s'', c) \<Rightarrow> c s'')))"

definition tryCatch :: "('s, 'a) comp \<Rightarrow> (thrown \<Rightarrow> ('s, 'a) comp) \<Rightarrow> ('s, 'a) comp" where
  "tryCatch c h s = (case c s of (s', r) \<Rightarrow> catchSusp r h s')"

text \<open>
  A computation run on its own, with nothing else in flight, to the end: the state it
  leaves and how its promise settled (\<open>Pending\<close>: it never does).
\<close>

datatype 'a outcome = Fulfilled 'a | Rejected thrown | Pending

primrec runSusp :: "('s, 'a) susp \<Rightarrow> 's \<Rightarrow> 's \<times> 'a outcome" where
  "runSusp (Done a) = (\<lambda>s. (s, Fulfilled a))"
| "runSusp (Fail e) = (\<lambda>s. (s, Rejected e))"
| "runSusp Hang = (\<lambda>s. (s, Pending))"
| "runSusp (Await k) = (\<lambda>s. case map_prod id runSusp (k s) of (s', c) \<Rightarrow> c s')"

definition run :: "('s, 'a) comp \<Rightarrow> 's \<Rightarrow> 's \<times> 'a outcome" where
  "run c s = (case c s of (s', r) \<Rightarrow> runSusp r s')"

text \<open>
  \<open>reach c r\<close>: a call of \<open>c\<close> can stand at \<open>r\<close>, at the call or after some of its
  pieces have run. \<open>within n r\<close>: from \<open>r\<close> the promise settles after at most \<open>n\<close> more
  pieces, whatever the states they run in.
\<close>

inductive reach :: "('s, 'a) comp \<Rightarrow> ('s, 'a) susp \<Rightarrow> bool" for c :: "('s, 'a) comp" where
  reach_call: "reach c (snd (c s))"
| reach_piece: "reach c (Await k) \<Longrightarrow> reach c (snd (k s))"

fun within :: "nat \<Rightarrow> ('s, 'a) susp \<Rightarrow> bool" where
  "within n (Done a) = True"
| "within n (Fail e) = True"
| "within n Hang = False"
| "within 0 (Await k) = False"
| "within (Suc n) (Await k) = (\<forall>s. within n (snd (k s)))"

definition settles_within :: "nat \<Rightarrow> ('s, 'a) comp \<Rightarrow> bool" where
  "settles_within n c = (\<forall>s. within n (snd (c s)))"

section \<open>The concurrency scheduler\<close>

text \<open>
  \<open>runConcurrent(tasks, concurrency)\<close>. \<open>results\<close> is \<open>new Array(tasks.length)\<close>: a slot
  is empty until a worker writes the value its task resolved to, or \<open>{error: e}\<close>.
  \<open>index\<close> and \<open>results\<close> are the variables the workers share; \<open>calls\<close> lists, in order,
  the indices of the tasks that were called (kept for the statements about the run, the
  code has no such variable); \<open>shared\<close> is the state the tasks run in.
\<close>

datatype 'a slot = Empty | Value 'a | ErrorObj thrown

text \<open>
  A worker is suspended at \<open>await tasks[current]()\<close>, with where that call stands, or has
  left its loop.
\<close>

datatype ('s, 'a) worker = Awaiting nat "('s, 'a) susp" | Returned

record ('s, 'a) pool =
  index :: nat
  results :: "'a slot list"
  workers :: "('s, 'a) worker list"
  calls :: "nat list"
  shared :: 's

text \<open>
  The head of the loop of \<open>worker\<close>, run when the worker is called and each time it
  resumes: \<open>while (index < tasks.length) { const current = index++; ... await
  tasks[current]()\<close>. The task is called here, so its first piece runs at once.
\<close>

definition worker ::
  "('s, 'a) comp list \<Rightarrow> ('s, 'a) pool \<Rightarrow> ('s, 'a) worker \<times> ('s, 'a) pool" where
  "worker tasks p =
     (if index p < length tasks then
        (let current = index p;
             (s', r) = (tasks ! current) (shared p)
         in (Awaiting current r,
             p\<lparr>index := current + 1, calls := calls p @ [current], shared := s'\<rparr>))
      else (Returned, p))"

text \<open>\<open>for (let i = 0; i < k; i++) workers.push(worker())\<close>.\<close>

fun spawn :: "('s, 'a) comp list \<Rightarrow> nat \<Rightarrow> ('s, 'a) pool \<Rightarrow> ('s, 'a) pool" where
  "spawn tasks 0 p = p"
| "spawn tasks (Suc k) p =
     (let (w, p') = worker tasks p in spawn tasks k (p'\<lparr>workers := workers p' @ [w]\<rparr>))"

text \<open>
  Worker \<open>i\<close> resumes with the outcome of its task: \<open>results[current] = ...\<close>, in the
  \<open>try\<close> or in the \<open>catch\<close>, then the head of the loop again.
\<close>

definition settle ::
  "('s, 'a) comp list \<Rightarrow> nat \<Rightarrow> nat \<Rightarrow> 'a slot \<Rightarrow> ('s, 'a) pool \<Rightarrow> ('s, 'a) pool" where
  "settle tasks i current x p =
     (let (w, p') = worker tasks (p\<lparr>results := (results p)[current := x]\<rparr>)
      in p'\<lparr>workers := (workers p')[i := w]\<rparr>)"

text \<open>
  One step of the event loop on worker \<open>i\<close>: the next piece of its task runs, or, the
  task having settled, the worker resumes.
\<close>

definition resume :: "('s, 'a) comp list \<Rightarrow> nat \<Rightarrow> ('s, 'a) pool \<Rightarrow> ('s, 'a) pool" where
  "resume tasks i p =
     (case workers p ! i of
        Returned \<Rightarrow> p
      | Awaiting current r \<Rightarrow>
          (case r of
             Await k \<Rightarrow>
               (let (s', r') = k (shared p)
                in p\<lparr>workers := (workers p)[i := Awaiting current r'], shared := s'\<rparr>)
           | Hang \<Rightarrow> p
           | Done v \<Rightarrow> settle tasks i current (Value v) p
           | Fail e \<Rightarrow> settle tasks i current (ErrorObj e) p))"

fun runnable :: "('s, 'a) worker \<Rightarrow> bool" where
  "runnable Returned = False"
| "runnable (Awaiting current Hang) = False"
| "runnable (Awaiting current r) = True"

fun returned :: "('s, 'a) worker \<Rightarrow> bool" where
  "returned Returned = True"
| "returned (Awaiting current r) = False"

definition ready :: "('s, 'a) pool \<Rightarrow> nat list" where
  "ready p = filter (\<lambda>i. runnable (workers p ! i)) [0..<length (workers p)]"

text \<open>
  Which worker goes next is not the program's choice. A schedule is a list of numbers;
  each picks one of the workers that can go on, and the run stops when no worker can, or
  when the schedule is used up. What is left of the schedule is returned. Every order in
  which the event loop can run the pieces is the order of some schedule; the schedules
  do not look at how long a worker has to wait, so they also give orders that the timers
  rule out.
\<close>

fun drive ::
  "('s, 'a) comp list \<Rightarrow> nat list \<Rightarrow> ('s, 'a) pool \<Rightarrow> nat list \<times> ('s, 'a) pool" where
  "drive tasks [] p = ([], p)"
| "drive tasks (j # js) p =
     (case ready p of
        [] \<Rightarrow> (j # js, p)
      | i # is \<Rightarrow> drive tasks js (resume tasks ((i # is) ! (j mod length (i # is))) p))"

text \<open>\<open>await Promise.all(workers)\<close> is over when every worker has returned.\<close>

definition resolved :: "('s, 'a) pool \<Rightarrow> bool" where
  "resolved p = list_all returned (workers p)"

definition runConcurrent ::
  "('s, 'a) comp list \<Rightarrow> int \<Rightarrow> nat list \<Rightarrow> 's \<Rightarrow> nat list \<times> ('s, 'a) pool" where
  "runConcurrent tasks concurrency sched s =
     drive tasks sched
       (spawn tasks (nat (min concurrency (int (length tasks))))
          \<lparr>index = 0, results = replicate (length tasks) Empty, workers = [],
           calls = [], shared = s\<rparr>)"

section \<open>Running one test\<close>

text \<open>
  What a run can be seen to do: the events on the emitter (a test object in a payload is
  given by its title), and the calls of hooks and of test bodies, with the \<open>this\<close> they
  get. The code keeps no such list; the statements about a run are about it.
\<close>

datatype event =
    TestStart string
  | TestPass string nat
  | TestFail string nat thrown

datatype action = Emit event | CallHook string addr | CallBody string addr

text \<open>
  The state of the process: the list above, the global \<open>currentTestTitle\<close>, the next
  free address, and the memory of the test file.
\<close>

record 'u world =
  trace :: "action list"
  currentTestTitle :: "string option"
  fresh :: addr
  memory :: "'u mem"

text \<open>\<open>f.call(this)\<close>: the synchronous part of \<open>f\<close> runs, what it returns is the result.\<close>

definition invoke :: "'u jsfun \<Rightarrow> addr \<Rightarrow> action \<Rightarrow> ('u world, settled) comp" where
  "invoke f this a w =
     (case f this (memory w) of
        (r, m') \<Rightarrow> (w\<lparr>trace := trace w @ [a], memory := m'\<rparr>, Done r))"

text \<open>
  \<open>await\<close> of what a call returned: the function is suspended, and goes on, or throws,
  when the promise has settled. The wait takes \<open>waited r\<close> milliseconds of the time that
  \<open>Date.now()\<close> reads. Tasks in flight wait at the same time and code that does not wait
  takes no time, so the time that passes for a task between two of its reads of
  \<open>Date.now()\<close> is the sum of its own waits in between, whatever the other tasks do.
\<close>

fun await :: "settled \<Rightarrow> ('u world, unit) comp" where
  "await (Returns d) w = suspend (ret ()) w"
| "await (Throws d e) w = suspend (throw e) w"
| "await Never w = never w"

declare await.simps [simp del]

fun waited :: "settled \<Rightarrow> nat" where
  "waited (Returns d) = d"
| "waited (Throws d e) = d"
| "waited Never = 0"

text \<open>\<open>for (const hook of hooks) { await hook.call(suite.context); }\<close>\<close>

fun runHooks :: "'u hook list \<Rightarrow> addr \<Rightarrow> ('u world, unit) comp" where
  "runHooks [] this w = ret () w"
| "runHooks (hook # rest) this w =
     andThen (invoke (hook_fn hook) this (CallHook (hook_name hook) this))
       (\<lambda>r. andThen (await r) (\<lambda>u. runHooks rest this)) w"

declare runHooks.simps [simp del]

text \<open>
  \<open>Promise.race\<close> of the body's promise and a timer that rejects with
  \<open>new Error("Test timed out")\<close> after \<open>D\<close> milliseconds. The body was called, and any
  timer of its own started, before the timer of the race; so the body wins when it
  settles no later than after \<open>D\<close> milliseconds, and the timer wins otherwise.
\<close>

definition timeoutError :: thrown where
  "timeoutError = Error ''Test timed out''"

fun race :: "settled \<Rightarrow> nat \<Rightarrow> settled" where
  "race (Returns d) D = (if d \<le> D then Returns d else Throws D timeoutError)"
| "race (Throws d e) D = (if d \<le> D then Throws d e else Throws D timeoutError)"
| "race Never D = Throws D timeoutError"

text \<open>
  \<open>setTimeout(f, T)\<close> for an integer \<open>T\<close>: the platform waits \<open>T\<close> milliseconds when \<open>T\<close>
  is from \<open>1\<close> to \<open>2^31 - 1\<close>, and one millisecond for any other \<open>T\<close>.
\<close>

definition timerDelay :: "int \<Rightarrow> nat" where
  "timerDelay T = (if T < 1 \<or> 2147483647 < T then 1 else nat T)"

text \<open>
  What an attempt awaits: the race when \<open>if (test.options.timeout)\<close> holds, which it
  does for a number other than \<open>0\<close>, and the body's promise otherwise.
\<close>

definition raced :: "'u test \<Rightarrow> settled \<Rightarrow> settled" where
  "raced t r =
     (case timeout t of
        None \<Rightarrow> r
      | Some T \<Rightarrow> if T \<noteq> 0 then race r (timerDelay T) else r)"

text \<open>
  One pass through the body of the loop, \<open>try { await ...; error = null; break; }
  catch (err) { error = err; attempts++; }\<close>: the value of \<open>error\<close> after it, and the time
  the pass took. A call raises nothing here (a body that throws when called is
  \<open>Throws 0 e\<close>, raised by the \<open>await\<close>), so the call stands before the \<open>try\<close>.
\<close>

definition attempt :: "'u test \<Rightarrow> addr \<Rightarrow> ('u world, thrown option \<times> nat) comp" where
  "attempt t this w =
     andThen (invoke (testFn t) this (CallBody (title t) this)) (\<lambda>r.
     andThen (tryCatch (andThen (await (raced t r)) (\<lambda>u. ret None)) (\<lambda>err. ret (Some err)))
       (\<lambda>error. ret (error, waited (raced t r)))) w"

text \<open>
  \<open>do { ... } while (attempts <= retryLimit)\<close>, from the value \<open>attempts\<close> has before an
  iteration and the time \<open>elapsed\<close> since \<open>tStart\<close> was read; the result is \<open>error\<close>
  after the loop, with the time elapsed then, which is \<open>Date.now() - tStart\<close>.
\<close>

function attemptLoop ::
  "'u test \<Rightarrow> addr \<Rightarrow> int \<Rightarrow> int \<Rightarrow> nat \<Rightarrow> ('u world, thrown option \<times> nat) comp" where
  "attemptLoop t this retryLimit attempts elapsed w =
     andThen (attempt t this)
       (\<lambda>(error, d). case error of
           None \<Rightarrow> ret (None, elapsed + d)
         | Some err \<Rightarrow>
             if attempts + 1 \<le> retryLimit
             then attemptLoop t this retryLimit (attempts + 1) (elapsed + d)
             else ret (Some err, elapsed + d)) w"
  by pat_completeness auto
termination
  by (relation
      "measure (\<lambda>(t, this, retryLimit, attempts, elapsed, w). nat (retryLimit + 1 - attempts))")
    auto

declare attemptLoop.simps [simp del]

definition emit :: "event \<Rightarrow> ('u world, unit) comp" where
  "emit ev w = act (\<lambda>w. w\<lparr>trace := trace w @ [Emit ev]\<rparr>) w"

text \<open>
  The task \<open>runSuite\<close> builds for a test: the \<open>async () => { ... }\<close> of \<open>testTasks\<close>, with
  \<open>suite.context\<close>, \<open>before\<close> and \<open>after\<close> as they are when it is built. \<open>retry || 0\<close> is
  \<open>retry\<close> for a number.
\<close>

definition testTask ::
  "addr \<Rightarrow> 'u hook list \<Rightarrow> 'u hook list \<Rightarrow> 'u test \<Rightarrow> ('u world, unit) comp" where
  "testTask this before after t w =
     andThen (runHooks before this) (\<lambda>u.
     andThen (emit (TestStart (title t))) (\<lambda>u.
     andThen (act (\<lambda>w. w\<lparr>currentTestTitle := Some (title t)\<rparr>)) (\<lambda>u.
     andThen (attemptLoop t this (retry t) 0 0) (\<lambda>(error, tDuration).
     andThen (runHooks after this) (\<lambda>u.
       case error of
         None \<Rightarrow> emit (TestPass (title t) tDuration)
       | Some err \<Rightarrow>
           if truthy_thrown err then emit (TestFail (title t) tDuration err)
           else emit (TestPass (title t) tDuration)))))) w"

text \<open>
  The same task when \<open>after\<close> is \<open>null\<close>: \<open>for (const hook of after)\<close> raises a
  \<open>TypeError\<close>, after the attempts and before any event that ends the test.
\<close>

definition typeError :: thrown where
  "typeError = Error ''TypeError''"

definition testTaskNoAfter ::
  "addr \<Rightarrow> 'u hook list \<Rightarrow> 'u test \<Rightarrow> ('u world, unit) comp" where
  "testTaskNoAfter this before t w =
     andThen (runHooks before this) (\<lambda>u.
     andThen (emit (TestStart (title t))) (\<lambda>u.
     andThen (act (\<lambda>w. w\<lparr>currentTestTitle := Some (title t)\<rparr>)) (\<lambda>u.
     andThen (attemptLoop t this (retry t) 0 0) (\<lambda>(error, tDuration).
       throw typeError)))) w"

section \<open>The suite tree walker\<close>

text \<open>
  The part of \<open>globalConfigObj\<close> the walker reads. \<open>regexp_test p s\<close> is
  \<open>new RegExp(p).test(s)\<close>, which the platform computes.
\<close>

record config =
  concurrency :: int
  grep :: "string option"
  regexp_test :: "string \<Rightarrow> string \<Rightarrow> bool"

text \<open>The filter of \<open>testsToRun\<close>; \<open>if (globalConfigObj.grep)\<close> holds for a non-empty string.\<close>

definition testsToRun :: "config \<Rightarrow> 'u test list \<Rightarrow> 'u test list" where
  "testsToRun cfg ts =
     filter (\<lambda>test.
        if list_ex t_only ts then t_only test
        else (case grep cfg of
                Some pat \<Rightarrow> if pat \<noteq> [] then regexp_test cfg pat (title test) else True
              | None \<Rightarrow> True)) ts"

text \<open>
  \<open>suite.context = Object.assign({}, parentContext, suite.context)\<close>: a new object gets
  the properties of the parent's context, then those of the suite's own, and the suite
  points to it. The default \<open>parentContext = {}\<close> of the root's call is \<open>None\<close>.
\<close>

definition objectAt :: "'u world \<Rightarrow> addr \<Rightarrow> object" where
  "objectAt w a = (case objects (memory w) a of None \<Rightarrow> Map.empty | Some ob \<Rightarrow> ob)"

definition assignContext :: "addr option \<Rightarrow> addr \<Rightarrow> 'u world \<Rightarrow> addr \<times> 'u world" where
  "assignContext parentContext own w =
     (let parentObj = (case parentContext of None \<Rightarrow> Map.empty | Some a \<Rightarrow> objectAt w a);
          new = fresh w
      in (new,
          w\<lparr>fresh := Suc new,
            memory := (memory w)
              \<lparr>objects := (objects (memory w))(new \<mapsto> parentObj ++ objectAt w own)\<rparr>\<rparr>))"

text \<open>
  The entry \<open>null\<close> of a chain of hooks: \<open>hook.call(...)\<close> on it raises a \<open>TypeError\<close>. In
  the list of a run the attempt shows as a call of a hook named \<open>null\<close>.
\<close>

definition nullEntry :: "'u hook" where
  "nullEntry = \<lparr>hook_name = ''null'', hook_fn = (\<lambda>this m. (Throws 0 typeError, m))\<rparr>"

text \<open>
  \<open>runSuite(suite, parentContext, parentBefore, parentAfter)\<close>, run to its end with the
  schedule \<open>sch\<close> for the workers of its batches: how its promise settles (\<open>Pending\<close>
  when a hook never settles, or a batch is not over when the schedule is used up), the
  suite with what the call assigned to it, what is left of the schedule, and the state.
  \<open>runChildren\<close> is the loop over \<open>suite.suites\<close>.

  The code writes the two caches together, so after \<open>computeMergedHooks\<close> both chains are
  arrays. In a suite that has \<open>mergedBeforeEach\<close> set and \<open>mergedAfterEach\<close> \<open>null\<close>, \<open>after\<close>
  is \<open>null\<close>: every task raises a \<open>TypeError\<close> where it iterates \<open>after\<close>, which
  \<open>runConcurrent\<close> catches, and a sub-suite that fills its caches gets
  \<open>afterEach.concat(null)\<close>, its own hooks followed by the entry \<open>null\<close>.
  \<open>computeMergedHooks\<close> never returns \<open>null\<close> for the first chain, so the last case of
  the distinction is never taken.
\<close>

fun runSuite ::
  "config \<Rightarrow> 'u suite \<Rightarrow> addr option \<Rightarrow> 'u hook list \<Rightarrow> 'u hook list \<Rightarrow> nat list \<Rightarrow>
     'u world \<Rightarrow> unit outcome \<times> 'u suite \<times> nat list \<times> 'u world"
and runChildren ::
  "config \<Rightarrow> 'u suite list \<Rightarrow> addr \<Rightarrow> 'u hook list \<Rightarrow> 'u hook list \<Rightarrow> nat list \<Rightarrow>
     'u world \<Rightarrow> unit outcome \<times> 'u suite list \<times> nat list \<times> 'u world"
where
  "runSuite cfg (Suite t ts ss hk c on sk mb ma) parentContext parentBefore parentAfter sch w =
     (if sk then (Fulfilled (), Suite t ts ss hk c on sk mb ma, sch, w)
      else
        (case assignContext parentContext c w of (ctx, w1) \<Rightarrow>
        (case run (runHooks (beforeAll hk) ctx) w1 of
           (w2, Rejected e) \<Rightarrow> (Rejected e, Suite t ts ss hk ctx on sk mb ma, sch, w2)
         | (w2, Pending) \<Rightarrow> (Pending, Suite t ts ss hk ctx on sk mb ma, sch, w2)
         | (w2, Fulfilled u) \<Rightarrow>
        (case computeMergedHooks (Suite t ts ss hk ctx on sk mb ma) parentBefore parentAfter of
           ((Some before, after), s2) \<Rightarrow>
             (case runConcurrent
                     (map (case after of
                             Some hs \<Rightarrow> testTask ctx before hs
                           | None \<Rightarrow> testTaskNoAfter ctx before)
                        (testsToRun cfg ts))
                     (concurrency cfg) sch w2 of
                (sch3, p) \<Rightarrow>
                  if \<not> resolved p
                  then (Pending,
                        Suite t ts ss hk ctx on sk (mergedBeforeEach s2) (mergedAfterEach s2),
                        sch3, shared p)
                  else
                    (case runChildren cfg ss ctx before
                            (case after of Some hs \<Rightarrow> hs | None \<Rightarrow> [nullEntry])
                            sch3 (shared p) of
                       (Fulfilled u', ss', sch4, w4) \<Rightarrow>
                         (case run (runHooks (afterAll hk) ctx) w4 of (w5, r) \<Rightarrow>
                           (r, Suite t ts ss' hk ctx on sk (mergedBeforeEach s2) (mergedAfterEach s2),
                            sch4, w5))
                     | (r, ss', sch4, w4) \<Rightarrow>
                         (r, Suite t ts ss' hk ctx on sk (mergedBeforeEach s2) (mergedAfterEach s2),
                          sch4, w4)))
         | ((None, after), s2) \<Rightarrow>
             (Rejected typeError,
              Suite t ts ss hk ctx on sk (mergedBeforeEach s2) (mergedAfterEach s2), sch, w2)))))"
| "runChildren cfg [] parentContext before after sch w = (Fulfilled (), [], sch, w)"
| "runChildren cfg (child # rest) parentContext before after sch w =
     (case runSuite cfg child (Some parentContext) before after sch w of
        (Fulfilled u, child', sch1, w1) \<Rightarrow>
          (case runChildren cfg rest parentContext before after sch1 w1 of
             (r, rest', sch2, w2) \<Rightarrow> (r, child' # rest', sch2, w2))
      | (r, child', sch1, w1) \<Rightarrow> (r, child' # rest, sch1, w1))"

section \<open>The toEqual matcher\<close>

text \<open>
  \<open>JSON.stringify\<close> is the platform's. On the values above it is, after the ECMAScript
  definition: \<open>undefined\<close> and functions have no text (\<open>None\<close>, the value \<open>undefined\<close>);
  a number, an integer below \<open>10^21\<close> in size, is written in decimal; a string is
  quoted, with \<open>"\<close>, \<open>\\<close> and the control characters escaped; in an array a value
  without text is written \<open>null\<close>; in an object a property whose value has no text is
  left out, and the others are written in the order of the properties. On these values
  it never throws.
\<close>

definition digitChars :: string where
  "digitChars = ''0123456789abcdef''"

fun natString :: "nat \<Rightarrow> string" where
  "natString n =
     (if n < 10 then [digitChars ! n] else natString (n div 10) @ [digitChars ! (n mod 10)])"

declare natString.simps [simp del]

definition numberString :: "int \<Rightarrow> string" where
  "numberString i = (if i < 0 then CHR ''-'' # natString (nat (- i)) else natString (nat i))"

definition escapeChar :: "char \<Rightarrow> string" where
  "escapeChar c =
     (if c = CHR 0x22 then [CHR 0x5C, CHR 0x22]
      else if c = CHR 0x5C then [CHR 0x5C, CHR 0x5C]
      else if c = CHR 0x08 then [CHR 0x5C, CHR ''b'']
      else if c = CHR 0x0C then [CHR 0x5C, CHR ''f'']
      else if c = CHR 0x0A then [CHR 0x5C, CHR ''n'']
      else if c = CHR 0x0D then [CHR 0x5C, CHR ''r'']
      else if c = CHR 0x09 then [CHR 0x5C, CHR ''t'']
      else if (of_char c :: nat) < 32
        then [CHR 0x5C, CHR ''u'', CHR ''0'', CHR ''0'',
              digitChars ! (of_char c div 16), digitChars ! (of_char c mod 16)]
      else [c])"

definition quote :: "string \<Rightarrow> string" where
  "quote s = CHR 0x22 # concat (map escapeChar s) @ [CHR 0x22]"

fun commaSep :: "string list \<Rightarrow> string" where
  "commaSep [] = []"
| "commaSep [x] = x"
| "commaSep (x # y # zs) = x @ '','' @ commaSep (y # zs)"

fun JSON_stringify :: "jsval \<Rightarrow> string option"
and elements :: "jsval list \<Rightarrow> string list"
and members :: "(string \<times> jsval) list \<Rightarrow> string list"
where
  "JSON_stringify Undefined = None"
| "JSON_stringify Func = None"
| "JSON_stringify Null = Some ''null''"
| "JSON_stringify (Bool b) = Some (if b then ''true'' else ''false'')"
| "JSON_stringify (Num n) = Some (numberString (sint n))"
| "JSON_stringify (Str s) = Some (quote s)"
| "JSON_stringify (Arr xs) = Some (''['' @ commaSep (elements xs) @ '']'')"
| "JSON_stringify (Obj ps) = Some (''{'' @ commaSep (members ps) @ ''}'')"
| "elements [] = []"
| "elements (x # xs) =
     (case JSON_stringify x of None \<Rightarrow> ''null'' | Some s \<Rightarrow> s) # elements xs"
| "members [] = []"
| "members ((k, v) # ps) =
     (case JSON_stringify v of
        None \<Rightarrow> members ps
      | Some s \<Rightarrow> (quote k @ '':'' @ s) # members ps)"

text \<open>
  \<open>customMatchers.toEqual(received, expected)\<close>, which \<open>expect(received).toEqual(expected)\<close>
  calls: it throws an \<open>Error\<close> or returns. In the message, \<open>undefined\<close> is written
  \<open>undefined\<close>.
\<close>

definition template :: "string option \<Rightarrow> string" where
  "template x = (case x of None \<Rightarrow> ''undefined'' | Some s \<Rightarrow> s)"

definition toEqual :: "jsval \<Rightarrow> jsval \<Rightarrow> thrown + unit" where
  "toEqual received expected =
     (if JSON_stringify received \<noteq> JSON_stringify expected
      then Inl (Error (''Expected '' @ template (JSON_stringify received) @ '' to equal '' @
                       template (JSON_stringify expected)))
      else Inr ())"

text \<open>
  The keys of the properties of an object that \<open>JSON.stringify\<close> writes, in the order
  in which it writes them.
\<close>

definition writtenKeys :: "(string \<times> jsval) list \<Rightarrow> string list" where
  "writtenKeys ps = map fst (filter (\<lambda>(k, v). JSON_stringify v \<noteq> None) ps)"

text \<open>
  For reading a text back: the characters that do not occur in the text of \<open>null\<close>, of a
  boolean or of a number; the texts made of other characters; and what can stand after
  the text of a value inside the text of an array or of an object.
\<close>

definition specials :: "char set" where
  "specials = {CHR '','', CHR '']'', CHR ''}'', CHR 0x22, CHR ''['', CHR ''{''}"

definition plain :: "string \<Rightarrow> bool" where
  "plain s \<longleftrightarrow> s \<noteq> [] \<and> set s \<inter> specials = {}"

definition follows :: "string \<Rightarrow> bool" where
  "follows X \<longleftrightarrow> X = [] \<or> hd X \<in> {CHR '','', CHR '']'', CHR ''}''}"

text \<open>
  The builders of the tree. \<open>options\<close> are the options given to \<open>it\<close>, over the defaults
  of \<open>class Test\<close>; \<open>it\<close> pushes a new test to the tests of the current suite, \<open>it.only\<close>
  is \<open>it\<close> with \<open>only: true\<close>, and \<open>it.skip\<close> does nothing.
\<close>

record options =
  opt_timeout :: "int option"
  opt_retry :: int
  opt_only :: bool
  opt_skip :: bool

definition noOptions :: options where
  "noOptions = \<lparr>opt_timeout = None, opt_retry = 0, opt_only = False, opt_skip = False\<rparr>"

definition newTest :: "string \<Rightarrow> 'u jsfun \<Rightarrow> options \<Rightarrow> 'u test" where
  "newTest ttl fn opts =
     \<lparr>title = ttl, testFn = fn, timeout = opt_timeout opts, retry = opt_retry opts,
      t_only = opt_only opts, t_skip = opt_skip opts\<rparr>"

definition newSuite :: "string \<Rightarrow> addr \<Rightarrow> 'u suite" where
  "newSuite ttl c =
     Suite ttl [] [] \<lparr>beforeAll = [], afterAll = [], beforeEach = [], afterEach = []\<rparr>
       c False False None None"

fun it :: "string \<Rightarrow> options \<Rightarrow> 'u jsfun \<Rightarrow> 'u suite \<Rightarrow> 'u suite" where
  "it ttl opts fn (Suite t ts ss hk c on sk mb ma) =
     Suite t (ts @ [newTest ttl fn opts]) ss hk c on sk mb ma"

definition it_only :: "string \<Rightarrow> options \<Rightarrow> 'u jsfun \<Rightarrow> 'u suite \<Rightarrow> 'u suite" where
  "it_only ttl opts fn s = it ttl (opts\<lparr>opt_only := True\<rparr>) fn s"

definition it_skip :: "string \<Rightarrow> options \<Rightarrow> 'u jsfun \<Rightarrow> 'u suite \<Rightarrow> 'u suite" where
  "it_skip ttl opts fn s = s"

section \<open>What a run of a test leaves\<close>

text \<open>
  Names for the states a test's task goes through and for what is read off the list of
  a run: the calls of a chain of hooks, the events and the calls of test bodies in a
  list, the state after a call, after \<open>testStart\<close> and after the last event, the event
  that ends a test, and the bodies that fail \<open>n\<close> times and then pass (an attempt fails
  when what the race leaves is a rejection).
\<close>

definition called :: "action \<Rightarrow> 'u mem \<Rightarrow> 'u world \<Rightarrow> 'u world" where
  "called a m w = w\<lparr>trace := trace w @ [a], memory := m\<rparr>"

definition hookCalls :: "'u hook list \<Rightarrow> addr \<Rightarrow> action list" where
  "hookCalls hs this = map (\<lambda>h. CallHook (hook_name h) this) hs"

fun events :: "action list \<Rightarrow> event list" where
  "events [] = []"
| "events (Emit ev # as) = ev # events as"
| "events (CallHook n this # as) = events as"
| "events (CallBody n this # as) = events as"

fun bodyCalls :: "action list \<Rightarrow> (string \<times> addr) list" where
  "bodyCalls [] = []"
| "bodyCalls (CallBody n this # as) = (n, this) # bodyCalls as"
| "bodyCalls (Emit ev # as) = bodyCalls as"
| "bodyCalls (CallHook n this # as) = bodyCalls as"

definition started :: "'u test \<Rightarrow> 'u world \<Rightarrow> 'u world" where
  "started t w = w\<lparr>trace := trace w @ [Emit (TestStart (title t))],
                    currentTestTitle := Some (title t)\<rparr>"

definition verdict :: "'u test \<Rightarrow> nat \<Rightarrow> thrown option \<Rightarrow> event" where
  "verdict t d error =
     (case error of
        None \<Rightarrow> TestPass (title t) d
      | Some err \<Rightarrow> if truthy_thrown err then TestFail (title t) d err else TestPass (title t) d)"

definition reported :: "event \<Rightarrow> 'u world \<Rightarrow> 'u world" where
  "reported ev w = w\<lparr>trace := trace w @ [Emit ev]\<rparr>"

definition bodyCall :: "'u test \<Rightarrow> addr \<Rightarrow> 'u world \<Rightarrow> 'u world" where
  "bodyCall t this w = called (CallBody (title t) this) (snd (testFn t this (memory w))) w"

fun failsThenPasses :: "'u test \<Rightarrow> addr \<Rightarrow> nat \<Rightarrow> 'u mem \<Rightarrow> bool" where
  "failsThenPasses t this 0 m =
     (case raced t (fst (testFn t this m)) of Returns d \<Rightarrow> True | Throws d e \<Rightarrow> False | Never \<Rightarrow> False)"
| "failsThenPasses t this (Suc n) m =
     (case raced t (fst (testFn t this m)) of
        Returns d \<Rightarrow> False
      | Throws d e \<Rightarrow> failsThenPasses t this n (snd (testFn t this m))
      | Never \<Rightarrow> False)"





section \<open>What holds of the workers during a run\<close>

text \<open>
  The tasks the workers are suspended on, in the order of the workers; the facts about
  the shared variables that every step of a run keeps; and a bound on the steps that are
  left: \<open>depth r\<close> is the least number of pieces within which \<open>r\<close> settles, a suspended
  worker weighs one more than the depth of its task, and every task not yet called
  weighs \<open>K\<close>.
\<close>

fun currents :: "('s, 'a) worker list \<Rightarrow> nat list" where
  "currents [] = []"
| "currents (Returned # ws) = currents ws"
| "currents (Awaiting c r # ws) = c # currents ws"

definition pool_inv :: "('s, 'a) comp list \<Rightarrow> ('s, 'a) pool \<Rightarrow> bool" where
  "pool_inv tasks p \<longleftrightarrow>
     length (results p) = length tasks \<and>
     index p \<le> length tasks \<and>
     calls p = [0..<index p] \<and>
     (\<forall>c r. Awaiting c r \<in> set (workers p) \<longrightarrow> reach (tasks ! c) r) \<and>
     distinct (currents (workers p)) \<and>
     (\<forall>c<length tasks.
        results p ! c = Empty \<longleftrightarrow> c \<in> set (currents (workers p)) \<or> index p \<le> c) \<and>
     (\<forall>c \<in> set (currents (workers p)). c < index p) \<and>
     (\<forall>c<length tasks. \<forall>v. results p ! c = Value v \<longrightarrow> reach (tasks ! c) (Done v)) \<and>
     (\<forall>c<length tasks. \<forall>e. results p ! c = ErrorObj e \<longrightarrow> reach (tasks ! c) (Fail e)) \<and>
     (Returned \<in> set (workers p) \<longrightarrow> index p = length tasks)"

definition depth :: "('s, 'a) susp \<Rightarrow> nat" where
  "depth r = (LEAST n. within n r)"

fun wt :: "('s, 'a) worker \<Rightarrow> nat" where
  "wt Returned = 0"
| "wt (Awaiting c r) = Suc (depth r)"

definition cost :: "('s, 'a) comp list \<Rightarrow> nat \<Rightarrow> ('s, 'a) pool \<Rightarrow> nat" where
  "cost tasks K p = sum_list (map wt (workers p)) + (length tasks - index p) * K"

definition bounded :: "nat \<Rightarrow> ('s, 'a) pool \<Rightarrow> bool" where
  "bounded N p \<longleftrightarrow> (\<forall>c r. Awaiting c r \<in> set (workers p) \<longrightarrow> within N r)"

text \<open>
  A relation \<open>G\<close> between states that every piece of a computation keeps: \<open>guar G c\<close>
  holds when the piece that runs at the call, and every piece that runs later, from
  whatever state it finds, leads to a state in relation \<open>G\<close> with the one it started in.
  For a pool: the state is in relation with the one the batch started in, and the
  workers are suspended on computations all of whose pieces keep \<open>G\<close>.
\<close>

primrec sguar :: "('s \<Rightarrow> 's \<Rightarrow> bool) \<Rightarrow> ('s, 'a) susp \<Rightarrow> bool" where
  "sguar G (Done a) = True"
| "sguar G (Fail e) = True"
| "sguar G Hang = True"
| "sguar G (Await k) = (\<forall>s. G s (fst (k s)) \<and> snd (map_prod id (sguar G) (k s)))"



definition pool_guar :: "('s \<Rightarrow> 's \<Rightarrow> bool) \<Rightarrow> 's \<Rightarrow> ('s, 'a) pool \<Rightarrow> bool" where
  "pool_guar G s0 p \<longleftrightarrow>
     G s0 (shared p) \<and> (\<forall>c r. Awaiting c r \<in> set (workers p) \<longrightarrow> sguar G r)"

section \<open>Concrete inputs\<close>

text \<open>Three tasks over a log of numbers; each piece of a task appends to the log.\<close>

definition taskA :: "(nat list, nat) comp" where
  "taskA = (\<lambda>s. (s @ [1], Await (\<lambda>s. (s @ [11], Done 100))))"

definition taskB :: "(nat list, nat) comp" where
  "taskB = (\<lambda>s. (s @ [2], Fail (Error ''boom'')))"

definition taskC :: "(nat list, nat) comp" where
  "taskC = (\<lambda>s. (s @ [3], Await (\<lambda>s. (s @ [33], Done 300))))"

text \<open>
  The variables of a test file are a log of strings here. \<open>logHook n\<close> is a hook that
  appends \<open>n\<close> to the log and returns.
\<close>

definition logHook :: "string \<Rightarrow> string list hook" where
  "logHook n =
     \<lparr>hook_name = n,
      hook_fn = (\<lambda>this m. (Returns 0, m\<lparr>globals := globals m @ [n]\<rparr>))\<rparr>"

definition hookedSuite :: "string list suite" where
  "hookedSuite =
     Suite ''inner'' [] []
       \<lparr>beforeAll = [], afterAll = [],
        beforeEach = [logHook ''own before''], afterEach = [logHook ''own after'']\<rparr>
       0 False False None None"

text \<open>
  A state with nothing in it, and one in which the addresses below \<open>n\<close> hold the empty
  objects that the constructor gave the suites; hooks and tests over a log of strings: a
  hook that throws, a test that passes, one that fails while it has been called fewer
  than \<open>k\<close> times, one whose promise never settles; a configuration without a filter.
\<close>

definition emptyWorld :: "'u \<Rightarrow> 'u world" where
  "emptyWorld g = \<lparr>trace = [], currentTestTitle = None, fresh = 0,
                   memory = \<lparr>objects = Map.empty, globals = g\<rparr>\<rparr>"

definition throwHook :: "string \<Rightarrow> string list hook" where
  "throwHook n =
     \<lparr>hook_name = n,
      hook_fn = (\<lambda>this m. (Throws 0 (Error n), m\<lparr>globals := globals m @ [n]\<rparr>))\<rparr>"

definition passing :: "string \<Rightarrow> string list test" where
  "passing n =
     \<lparr>title = n, testFn = (\<lambda>this m. (Returns 0, m\<lparr>globals := globals m @ [n]\<rparr>)),
      timeout = None, retry = 0, t_only = False, t_skip = False\<rparr>"

definition flaky :: "string \<Rightarrow> nat \<Rightarrow> int \<Rightarrow> string list test" where
  "flaky n k r =
     \<lparr>title = n,
      testFn = (\<lambda>this m.
         (if length (filter (\<lambda>x. x = n) (globals m)) < k then Throws 0 (Error ''not yet'')
          else Returns 0,
          m\<lparr>globals := globals m @ [n]\<rparr>)),
      timeout = None, retry = r, t_only = False, t_skip = False\<rparr>"

definition hanging :: "string \<Rightarrow> int \<Rightarrow> int \<Rightarrow> string list test" where
  "hanging n T r =
     \<lparr>title = n, testFn = (\<lambda>this m. (Never, m\<lparr>globals := globals m @ [n]\<rparr>)),
      timeout = Some T, retry = r, t_only = False, t_skip = False\<rparr>"

definition worldWith :: "nat \<Rightarrow> 'u \<Rightarrow> 'u world" where
  "worldWith n g =
     \<lparr>trace = [], currentTestTitle = None, fresh = n,
      memory = \<lparr>objects = (\<lambda>a. if a < n then Some Map.empty else None), globals = g\<rparr>\<rparr>"

definition cfg0 :: config where
  "cfg0 = \<lparr>concurrency = 50, grep = None, regexp_test = (\<lambda>p s. False)\<rparr>"

definition failingSuite :: "string list suite" where
  "failingSuite =
     Suite ''Root'' [passing ''adds''] []
       \<lparr>beforeAll = [], afterAll = [],
        beforeEach = [throwHook ''boom''], afterEach = [logHook ''cleanup'']\<rparr>
       0 False False None None"

text \<open>The root suite after \<open>it('skipped', {skip: true}, fn)\<close>, with a body that logs.\<close>

definition skippedSuite :: "string list suite" where
  "skippedSuite =
     it ''skipped'' (noOptions\<lparr>opt_skip := True\<rparr>) (testFn (passing ''skipped''))
       (newSuite ''Root'' 0)"

text \<open>A suite with two tests that never settle, with timeouts of 50 and of 20 milliseconds.\<close>

definition hangingSuite :: "string list suite" where
  "hangingSuite =
     Suite ''Root'' [hanging ''slow'' 50 0, hanging ''quick'' 20 0] []
       \<lparr>beforeAll = [], afterAll = [], beforeEach = [], afterEach = []\<rparr>
       0 False False None None"




text \<open>
  A suite whose \<open>mergedBeforeEach\<close> is set while its \<open>mergedAfterEach\<close> is \<open>null\<close>, with a
  sub-suite.
\<close>

definition halfCachedSuite :: "string list suite" where
  "halfCachedSuite =
     Suite ''Root'' [passing ''adds'']
       [Suite ''Child'' [passing ''inner''] []
          \<lparr>beforeAll = [], afterAll = [], beforeEach = [], afterEach = [logHook ''cleanup'']\<rparr>
          1 False False None None]
       \<lparr>beforeAll = [], afterAll = [], beforeEach = [], afterEach = []\<rparr>
       0 False False (Some []) None"

section \<open>Properties of the hook composer\<close>

lemma computeMergedHooks_first:
  "mergedBeforeEach s = None \<Longrightarrow>
   fst (computeMergedHooks s pb pa) =
     (Some (pb @ beforeEach (hooks s)), Some (afterEach (hooks s) @ pa))"
  by (cases s) simp

lemma computeMergedHooks_fills:
  "mergedBeforeEach s = None \<Longrightarrow>
   mergedBeforeEach (snd (computeMergedHooks s pb pa)) = Some (pb @ beforeEach (hooks s)) \<and>
   mergedAfterEach (snd (computeMergedHooks s pb pa)) = Some (afterEach (hooks s) @ pa)"
  by (cases s) simp

lemma computeMergedHooks_before: "fst (fst (computeMergedHooks s pb pa)) \<noteq> None"
  by (cases s) (simp split: option.splits)

lemma computeMergedHooks_hit:
  "mergedBeforeEach s = Some b \<Longrightarrow>
   computeMergedHooks s pb pa = ((Some b, mergedAfterEach s), s)"
  by (cases s) simp

text \<open>
  Claim C9. On a suite whose cache is empty, the first call returns the inherited
  before-each list followed by the suite's own \<open>beforeEach\<close> list, and the suite's own
  \<open>afterEach\<close> list followed by the inherited after-each list. After it, a call on that
  suite returns the chains of the first call and leaves the suite as it is, whatever
  lists are passed and whatever has happened to the other fields of the suite (its hook
  lists among them) in between: the chains are read from the cache, nothing is computed
  again. A chain is its list of hooks here, so the cached array is the same value.
\<close>

theorem computeMergedHooks_cached:
  assumes "mergedBeforeEach s = None"
  shows "fst (computeMergedHooks s pb pa) =
           (Some (pb @ beforeEach (hooks s)), Some (afterEach (hooks s) @ pa)) \<and>
         (\<forall>s2 pb' pa'.
            mergedBeforeEach s2 = mergedBeforeEach (snd (computeMergedHooks s pb pa)) \<and>
            mergedAfterEach s2 = mergedAfterEach (snd (computeMergedHooks s pb pa)) \<longrightarrow>
            computeMergedHooks s2 pb' pa' = (fst (computeMergedHooks s pb pa), s2))"
proof (intro conjI allI impI)
  show "fst (computeMergedHooks s pb pa) =
          (Some (pb @ beforeEach (hooks s)), Some (afterEach (hooks s) @ pa))"
    using assms by (rule computeMergedHooks_first)
next
  fix s2 :: "'a suite" and pb' pa'
  assume c: "mergedBeforeEach s2 = mergedBeforeEach (snd (computeMergedHooks s pb pa)) \<and>
             mergedAfterEach s2 = mergedAfterEach (snd (computeMergedHooks s pb pa))"
  from c computeMergedHooks_fills [OF assms, of pb pa]
  have b: "mergedBeforeEach s2 = Some (pb @ beforeEach (hooks s))"
    and a: "mergedAfterEach s2 = Some (afterEach (hooks s) @ pa)"
    by simp_all
  show "computeMergedHooks s2 pb' pa' = (fst (computeMergedHooks s pb pa), s2)"
    using computeMergedHooks_hit [OF b, of pb' pa'] a computeMergedHooks_first [OF assms, of pb pa]
    by simp
qed

theorem computeMergedHooks_cached_witness:
  "mergedBeforeEach hookedSuite = None \<and>
   fst (computeMergedHooks hookedSuite [logHook ''outer before''] [logHook ''outer after'']) =
     (Some [logHook ''outer before'', logHook ''own before''],
      Some [logHook ''own after'', logHook ''outer after'']) \<and>
   fst (computeMergedHooks
          (snd (computeMergedHooks hookedSuite
                  [logHook ''outer before''] [logHook ''outer after'']))
          [logHook ''other''] []) =
     (Some [logHook ''outer before'', logHook ''own before''],
      Some [logHook ''own after'', logHook ''outer after''])"
proof -
  have n: "mergedBeforeEach hookedSuite = None"
    by (simp add: hookedSuite_def)
  note c = computeMergedHooks_cached [OF n, of "[logHook ''outer before'']" "[logHook ''outer after'']"]
  from c have first:
    "fst (computeMergedHooks hookedSuite [logHook ''outer before''] [logHook ''outer after'']) =
       (Some [logHook ''outer before'', logHook ''own before''],
        Some [logHook ''own after'', logHook ''outer after''])"
    by (simp add: hookedSuite_def)
  from c have
    "computeMergedHooks
       (snd (computeMergedHooks hookedSuite [logHook ''outer before''] [logHook ''outer after'']))
       [logHook ''other''] [] =
     (fst (computeMergedHooks hookedSuite [logHook ''outer before''] [logHook ''outer after'']),
      snd (computeMergedHooks hookedSuite [logHook ''outer before''] [logHook ''outer after'']))"
    by blast
  with n first show ?thesis by simp
qed

section \<open>Evaluating computations\<close>

text \<open>
  The equations by which a computation is evaluated on a given state: a suspended
  computation followed by \<open>f\<close> is suspended with \<open>f\<close> added to what is left of it.
\<close>

lemma thenSusp_Await: "thenSusp (Await k) f s = (s, Await (andThen k f))"
  by (simp add: andThen_def [abs_def] split_beta)

lemma catchSusp_Await: "catchSusp (Await k) h s = (s, Await (tryCatch k h))"
  by (simp add: tryCatch_def [abs_def] split_beta)

lemma runSusp_Await: "runSusp (Await k) s = run k s"
  by (simp add: run_def split_beta)

lemma andThen_code:
  "andThen c f s =
     (case c s of
        (s', Done a) \<Rightarrow> f a s'
      | (s', Fail e) \<Rightarrow> (s', Fail e)
      | (s', Hang) \<Rightarrow> (s', Hang)
      | (s', Await k) \<Rightarrow> (s', Await (andThen k f)))"
  by (simp add: andThen_def thenSusp_Await del: thenSusp.simps(4) split: prod.splits susp.splits)

lemma tryCatch_code:
  "tryCatch c h s =
     (case c s of
        (s', Done a) \<Rightarrow> (s', Done a)
      | (s', Fail e) \<Rightarrow> h e s'
      | (s', Hang) \<Rightarrow> (s', Hang)
      | (s', Await k) \<Rightarrow> (s', Await (tryCatch k h)))"
  by (simp add: tryCatch_def catchSusp_Await del: catchSusp.simps(4) split: prod.splits susp.splits)

lemma run_code:
  "run c s =
     (case c s of
        (s', Done a) \<Rightarrow> (s', Fulfilled a)
      | (s', Fail e) \<Rightarrow> (s', Rejected e)
      | (s', Hang) \<Rightarrow> (s', Pending)
      | (s', Await k) \<Rightarrow> run k s')"
  by (simp add: run_def runSusp_Await split: prod.splits susp.splits)

lemmas eval_comp = andThen_code tryCatch_code run_code ret_def throw_def never_def act_def
  suspend_def invoke_def await.simps runHooks.simps attempt_def
  attemptLoop.simps emit_def testTask_def testTaskNoAfter_def raced_def timerDelay_def
  timeoutError_def

lemmas eval_pool = runConcurrent_def worker_def settle_def resume_def ready_def resolved_def
  eval_nat_numeral

lemmas eval_suite = testsToRun_def objectAt_def assignContext_def typeError_def nullEntry_def

lemmas eval_cong = if_weak_cong prod.case_cong_weak outcome.case_cong_weak
  option.case_cong_weak susp.case_cong_weak list.case_cong_weak worker.case_cong_weak
  settled.case_cong_weak

section \<open>Properties of the scheduler\<close>

subsection \<open>The shared variables\<close>


lemma currents_append: "currents (xs @ ys) = currents xs @ currents ys"
  by (induction xs rule: currents.induct) simp_all

lemma pool_inv_init:
  "pool_inv tasks \<lparr>index = 0, results = replicate (length tasks) Empty, workers = [],
                   calls = [], shared = s\<rparr>"
  by (simp add: pool_inv_def)

lemma reach_task: "reach (tasks ! c) (snd ((tasks ! c) s))"
  by (rule reach_call)

lemma worker_claim:
  "index p < length tasks \<Longrightarrow>
   worker tasks p =
     (Awaiting (index p) (snd ((tasks ! index p) (shared p))),
      p\<lparr>index := Suc (index p), calls := calls p @ [index p],
        shared := fst ((tasks ! index p) (shared p))\<rparr>)"
  by (simp add: worker_def Let_def split_beta)

lemma worker_exit: "\<not> index p < length tasks \<Longrightarrow> worker tasks p = (Returned, p)"
  by (simp add: worker_def)

lemma pool_inv_push:
  assumes "pool_inv tasks p" and "worker tasks p = (w, p')"
  shows "pool_inv tasks (p'\<lparr>workers := workers p' @ [w]\<rparr>)"
proof (cases "index p < length tasks")
  case True
  from assms(2) True have w: "w = Awaiting (index p) (snd ((tasks ! index p) (shared p)))"
    and p': "p' = p\<lparr>index := Suc (index p), calls := calls p @ [index p],
                     shared := fst ((tasks ! index p) (shared p))\<rparr>"
    by (simp_all add: worker_claim)
  from assms(1) True reach_task [of tasks "index p" "shared p"] show ?thesis
    unfolding pool_inv_def w p'
    by (auto simp: currents_append less_Suc_eq)
next
  case False
  with assms(2) have w: "w = Returned" and p': "p' = p"
    by (simp_all add: worker_exit)
  from assms(1) False show ?thesis
    unfolding pool_inv_def w p'
    by (auto simp: currents_append)
qed

lemma pool_inv_spawn: "pool_inv tasks p \<Longrightarrow> pool_inv tasks (spawn tasks k p)"
proof (induction k arbitrary: p)
  case 0
  then show ?case by simp
next
  case (Suc k)
  obtain w p' where w: "worker tasks p = (w, p')" by (cases "worker tasks p")
  from pool_inv_push [OF Suc.prems w] Suc.IH w show ?case by simp
qed

lemma length_workers_spawn: "length (workers (spawn tasks k p)) = length (workers p) + k"
proof (induction k arbitrary: p)
  case 0
  then show ?case by simp
next
  case (Suc k)
  show ?case
    by (cases "index p < length tasks") (simp_all add: worker_claim worker_exit Suc.IH)
qed

lemma pool_inv_settle:
  assumes inv: "pool_inv tasks p"
    and i: "i < length (workers p)"
    and wi: "workers p ! i = Awaiting c r"
    and x: "x \<noteq> Empty" "\<And>v. x = Value v \<Longrightarrow> reach (tasks ! c) (Done v)"
        "\<And>e. x = ErrorObj e \<Longrightarrow> reach (tasks ! c) (Fail e)"
  shows "pool_inv tasks (settle tasks i c x p)"
proof -
  define xs where "xs = take i (workers p)"
  define ys where "ys = drop (Suc i) (workers p)"
  have ws: "workers p = xs @ Awaiting c r # ys"
    using id_take_nth_drop [OF i] wi by (simp add: xs_def ys_def)
  have upd: "\<And>w. (workers p)[i := w] = xs @ w # ys"
    using upd_conv_take_nth_drop [OF i] by (simp add: xs_def ys_def)
  show ?thesis
  proof (cases "index p < length tasks")
    case True
    have st: "settle tasks i c x p =
        p\<lparr>results := (results p)[c := x], index := Suc (index p),
          calls := calls p @ [index p],
          shared := fst ((tasks ! index p) (shared p)),
          workers := xs @ Awaiting (index p) (snd ((tasks ! index p) (shared p))) # ys\<rparr>"
      using True by (simp add: settle_def worker_claim upd)
    from inv True reach_task [of tasks "index p" "shared p"] x show ?thesis
      unfolding pool_inv_def st ws
      by (auto simp: currents_append less_Suc_eq nth_list_update)
  next
    case False
    have st: "settle tasks i c x p =
        p\<lparr>results := (results p)[c := x], workers := xs @ Returned # ys\<rparr>"
      using False by (simp add: settle_def worker_exit upd)
    from inv False x show ?thesis
      unfolding pool_inv_def st ws
      by (auto simp: currents_append nth_list_update)
  qed
qed

lemma pool_inv_resume:
  assumes inv: "pool_inv tasks p" and i: "i < length (workers p)"
  shows "pool_inv tasks (resume tasks i p)"
proof (cases "workers p ! i")
  case Returned
  with inv show ?thesis by (simp add: resume_def)
next
  case (Awaiting c r)
  from inv i Awaiting have rc: "reach (tasks ! c) r"
    unfolding pool_inv_def using nth_mem by metis
  show ?thesis
  proof (cases r)
    case (Done v)
    have "pool_inv tasks (settle tasks i c (Value v) p)"
      using inv i Awaiting rc Done by (intro pool_inv_settle) simp_all
    with Awaiting Done show ?thesis by (simp add: resume_def)
  next
    case (Fail e)
    have "pool_inv tasks (settle tasks i c (ErrorObj e) p)"
      using inv i Awaiting rc Fail by (intro pool_inv_settle) simp_all
    with Awaiting Fail show ?thesis by (simp add: resume_def)
  next
    case Hang
    with inv Awaiting show ?thesis by (simp add: resume_def)
  next
    case (Await k)
    define xs where "xs = take i (workers p)"
    define ys where "ys = drop (Suc i) (workers p)"
    have ws: "workers p = xs @ Awaiting c (Await k) # ys"
      using id_take_nth_drop [OF i] Awaiting Await by (simp add: xs_def ys_def)
    have upd: "\<And>w. (workers p)[i := w] = xs @ w # ys"
      using upd_conv_take_nth_drop [OF i] by (simp add: xs_def ys_def)
    have st: "resume tasks i p =
        p\<lparr>workers := xs @ Awaiting c (snd (k (shared p))) # ys, shared := fst (k (shared p))\<rparr>"
      using Awaiting Await by (simp add: resume_def upd split_beta)
    have "reach (tasks ! c) (snd (k (shared p)))"
      using rc Await by (auto intro: reach_piece)
    with inv show ?thesis
      unfolding pool_inv_def st ws
      by (auto simp: currents_append)
  qed
qed

lemma length_workers_resume: "length (workers (resume tasks i p)) = length (workers p)"
  by (auto simp: resume_def settle_def worker_def Let_def split_beta
      split: worker.splits susp.splits)

lemma ready_less: "i \<in> set (ready p) \<Longrightarrow> i < length (workers p)"
  by (simp add: ready_def)

lemma pick_ready: "ready p = i # is \<Longrightarrow> (i # is) ! (j mod length (i # is)) \<in> set (ready p)"
  by (metis length_greater_0_conv list.discI mod_less_divisor nth_mem)

lemma drive_inv:
  "pool_inv tasks p \<Longrightarrow>
   pool_inv tasks (snd (drive tasks sched p)) \<and>
   length (workers (snd (drive tasks sched p))) = length (workers p)"
proof (induction sched arbitrary: p)
  case Nil
  then show ?case by simp
next
  case (Cons j js)
  show ?case
  proof (cases "ready p")
    case Nil
    with Cons.prems show ?thesis by simp
  next
    case (Cons i "is")
    let ?i = "(i # is) ! (j mod length (i # is))"
    have "?i < length (workers p)"
      using pick_ready [OF Cons] by (rule ready_less)
    then have "pool_inv tasks (resume tasks ?i p)"
      using Cons.prems by (intro pool_inv_resume)
    from Cons.IH [OF this] Cons show ?thesis
      by (simp add: length_workers_resume)
  qed
qed

lemma returned_currents: "list_all returned ws \<Longrightarrow> currents ws = []"
  by (induction ws rule: currents.induct) simp_all

lemma returned_mem: "list_all returned ws \<Longrightarrow> ws \<noteq> [] \<Longrightarrow> Returned \<in> set ws"
  by (cases ws) (auto elim: returned.elims)

lemma pool_inv_resolved:
  assumes inv: "pool_inv tasks p" and res: "resolved p"
    and some: "workers p = [] \<Longrightarrow> length tasks = 0"
  shows "length (results p) = length tasks \<and> calls p = [0..<length tasks] \<and>
         (\<forall>i<length tasks.
            (\<exists>v. results p ! i = Value v \<and> reach (tasks ! i) (Done v)) \<or>
            (\<exists>e. results p ! i = ErrorObj e \<and> reach (tasks ! i) (Fail e)))"
proof -
  have cur: "currents (workers p) = []"
    using res by (simp add: resolved_def returned_currents)
  have idx: "index p = length tasks"
  proof (cases "workers p = []")
    case True
    with some inv show ?thesis by (simp add: pool_inv_def)
  next
    case False
    with res have "Returned \<in> set (workers p)"
      by (simp add: resolved_def returned_mem)
    with inv show ?thesis by (simp add: pool_inv_def)
  qed
  have filled: "\<And>i. i < length tasks \<Longrightarrow> results p ! i \<noteq> Empty"
    using inv cur idx by (simp add: pool_inv_def)
  show ?thesis
  proof (intro conjI allI impI)
    show "length (results p) = length tasks" using inv by (simp add: pool_inv_def)
    show "calls p = [0..<length tasks]" using inv idx by (simp add: pool_inv_def)
  next
    fix i assume i: "i < length tasks"
    show "(\<exists>v. results p ! i = Value v \<and> reach (tasks ! i) (Done v)) \<or>
          (\<exists>e. results p ! i = ErrorObj e \<and> reach (tasks ! i) (Fail e))"
    proof (cases "results p ! i")
      case Empty
      with filled [OF i] show ?thesis by simp
    next
      case (Value v)
      with inv i show ?thesis by (simp add: pool_inv_def)
    next
      case (ErrorObj e)
      with inv i show ?thesis by (simp add: pool_inv_def)
    qed
  qed
qed

subsection \<open>Progress of the workers\<close>

lemma within_mono: "within n r \<Longrightarrow> n \<le> m \<Longrightarrow> within m r"
proof (induction n r arbitrary: m rule: within.induct)
  case (5 n k)
  then obtain m' where m: "m = Suc m'" and le: "n \<le> m'"
    by (cases m) auto
  from 5 le show ?case by (simp add: m)
qed simp_all

lemma depth_le: "within n r \<Longrightarrow> depth r \<le> n"
  unfolding depth_def by (rule Least_le)

lemma within_depth: "within n r \<Longrightarrow> within (depth r) r"
  unfolding depth_def by (rule LeastI)

lemma depth_piece:
  assumes "within n (Await k)"
  shows "depth (snd (k s)) < depth (Await k)"
proof -
  have w: "within (depth (Await k)) (Await k)" using assms by (rule within_depth)
  then obtain m where m: "depth (Await k) = Suc m"
    by (cases "depth (Await k)") auto
  with w have "within m (snd (k s))" by simp
  then have "depth (snd (k s)) \<le> m" by (rule depth_le)
  with m show ?thesis by simp
qed

lemma task_within:
  "\<forall>t \<in> set tasks. settles_within N t \<Longrightarrow> c < length tasks \<Longrightarrow>
   within N (snd ((tasks ! c) s))"
  by (simp add: settles_within_def)

lemma task_depth:
  "\<forall>t \<in> set tasks. settles_within N t \<Longrightarrow> c < length tasks \<Longrightarrow>
   depth (snd ((tasks ! c) s)) \<le> N"
  by (rule depth_le) (rule task_within)

lemma claim_arith: "i < n \<Longrightarrow> (n - i) * k = (n - Suc i) * k + (k::nat)"
proof -
  assume "i < n"
  then have "n - i = Suc (n - Suc i)" by simp
  then show ?thesis by (simp only: mult_Suc add.commute)
qed

lemma push_cost:
  assumes b: "bounded N p" and t: "\<forall>t \<in> set tasks. settles_within N t"
    and K: "N + 2 \<le> K"
    and w: "worker tasks p = (w, p')"
  shows "bounded N (p'\<lparr>workers := workers p' @ [w]\<rparr>) \<and>
         cost tasks K (p'\<lparr>workers := workers p' @ [w]\<rparr>) \<le> cost tasks K p"
proof (cases "index p < length tasks")
  case True
  from w True have w': "w = Awaiting (index p) (snd ((tasks ! index p) (shared p)))"
    and p': "p' = p\<lparr>index := Suc (index p), calls := calls p @ [index p],
                     shared := fst ((tasks ! index p) (shared p))\<rparr>"
    by (simp_all add: worker_claim)
  have d: "depth (snd ((tasks ! index p) (shared p))) \<le> N"
    using t True by (rule task_depth)
  have "(length tasks - index p) * K =
        (length tasks - Suc (index p)) * K + K"
    using True by (rule claim_arith)
  with d K have "cost tasks K (p'\<lparr>workers := workers p' @ [w]\<rparr>) \<le> cost tasks K p"
    by (simp add: cost_def w' p')
  moreover have "bounded N (p'\<lparr>workers := workers p' @ [w]\<rparr>)"
    using b task_within [OF t True, of "shared p"] by (auto simp: bounded_def w' p')
  ultimately show ?thesis by simp
next
  case False
  with w have "w = Returned" and "p' = p" by (simp_all add: worker_exit)
  with b show ?thesis by (auto simp: bounded_def cost_def)
qed

lemma spawn_cost:
  "bounded N p \<Longrightarrow> \<forall>t \<in> set tasks. settles_within N t \<Longrightarrow> N + 2 \<le> K \<Longrightarrow>
   bounded N (spawn tasks k p) \<and> cost tasks K (spawn tasks k p) \<le> cost tasks K p"
proof (induction k arbitrary: p)
  case 0
  then show ?case by simp
next
  case (Suc k)
  obtain w p' where w: "worker tasks p = (w, p')" by (cases "worker tasks p")
  note push = push_cost [OF Suc.prems(1) Suc.prems(2) Suc.prems(3) w]
  from Suc.IH [of "p'\<lparr>workers := workers p' @ [w]\<rparr>"] push Suc.prems(2) Suc.prems(3) w
  show ?case by (auto intro: le_trans)
qed

lemma settle_cost:
  assumes b: "bounded N p" and t: "\<forall>t \<in> set tasks. settles_within N t"
    and K: "N + 2 \<le> K"
    and i: "i < length (workers p)" and wi: "workers p ! i = Awaiting c r"
  shows "bounded N (settle tasks i c x p) \<and> cost tasks K (settle tasks i c x p) < cost tasks K p"
proof -
  define xs where "xs = take i (workers p)"
  define ys where "ys = drop (Suc i) (workers p)"
  have ws: "workers p = xs @ Awaiting c r # ys"
    using id_take_nth_drop [OF i] wi by (simp add: xs_def ys_def)
  have upd: "\<And>w. (workers p)[i := w] = xs @ w # ys"
    using upd_conv_take_nth_drop [OF i] by (simp add: xs_def ys_def)
  show ?thesis
  proof (cases "index p < length tasks")
    case True
    have st: "settle tasks i c x p =
        p\<lparr>results := (results p)[c := x], index := Suc (index p),
          calls := calls p @ [index p],
          shared := fst ((tasks ! index p) (shared p)),
          workers := xs @ Awaiting (index p) (snd ((tasks ! index p) (shared p))) # ys\<rparr>"
      using True by (simp add: settle_def worker_claim upd)
    have d: "depth (snd ((tasks ! index p) (shared p))) \<le> N"
      using t True by (rule task_depth)
    have "(length tasks - index p) * K =
          (length tasks - Suc (index p)) * K + K"
      using True by (rule claim_arith)
    with d K have "cost tasks K (settle tasks i c x p) < cost tasks K p"
      by (simp add: cost_def st ws)
    moreover have "bounded N (settle tasks i c x p)"
      using b task_within [OF t True, of "shared p"] by (auto simp: bounded_def st ws)
    ultimately show ?thesis by simp
  next
    case False
    have st: "settle tasks i c x p =
        p\<lparr>results := (results p)[c := x], workers := xs @ Returned # ys\<rparr>"
      using False by (simp add: settle_def worker_exit upd)
    from b show ?thesis by (auto simp: bounded_def cost_def st ws)
  qed
qed

lemma resume_cost:
  assumes b: "bounded N p" and t: "\<forall>t \<in> set tasks. settles_within N t"
    and K: "N + 2 \<le> K"
    and i: "i < length (workers p)" and run: "runnable (workers p ! i)"
  shows "bounded N (resume tasks i p) \<and> cost tasks K (resume tasks i p) < cost tasks K p"
proof (cases "workers p ! i")
  case Returned
  with run show ?thesis by simp
next
  case (Awaiting c r)
  show ?thesis
  proof (cases r)
    case (Done v)
    with Awaiting settle_cost [OF b t K i Awaiting] show ?thesis by (simp add: resume_def)
  next
    case (Fail e)
    with Awaiting settle_cost [OF b t K i Awaiting] show ?thesis by (simp add: resume_def)
  next
    case Hang
    with run Awaiting show ?thesis by simp
  next
    case (Await k)
    define xs where "xs = take i (workers p)"
    define ys where "ys = drop (Suc i) (workers p)"
    have ws: "workers p = xs @ Awaiting c (Await k) # ys"
      using id_take_nth_drop [OF i] Awaiting Await by (simp add: xs_def ys_def)
    have upd: "\<And>w. (workers p)[i := w] = xs @ w # ys"
      using upd_conv_take_nth_drop [OF i] by (simp add: xs_def ys_def)
    have st: "resume tasks i p =
        p\<lparr>workers := xs @ Awaiting c (snd (k (shared p))) # ys, shared := fst (k (shared p))\<rparr>"
      using Awaiting Await by (simp add: resume_def upd split_beta)
    have wk: "within N (Await k)" using b by (auto simp: bounded_def ws)
    then obtain m where m: "N = Suc m" by (cases N) auto
    with wk have "within m (snd (k (shared p)))" by simp
    then have wn: "within N (snd (k (shared p)))"
      by (rule within_mono) (simp add: m)
    have "depth (snd (k (shared p))) < depth (Await k)"
      using wk by (rule depth_piece)
    then have "cost tasks K (resume tasks i p) < cost tasks K p"
      by (simp add: cost_def st ws)
    moreover have "bounded N (resume tasks i p)"
      using b wn by (auto simp: bounded_def st ws)
    ultimately show ?thesis by simp
  qed
qed

lemma ready_runnable: "i \<in> set (ready p) \<Longrightarrow> runnable (workers p ! i)"
  by (simp add: ready_def)

lemma bounded_all_runnable:
  "bounded N p \<Longrightarrow> w \<in> set (workers p) \<Longrightarrow> \<not> returned w \<Longrightarrow> runnable w"
proof (cases w rule: runnable.cases)
  case (2 current)
  assume "bounded N p" and "w \<in> set (workers p)"
  with 2 have "within N (Hang :: ('a, 'b) susp)" unfolding bounded_def by blast
  then show ?thesis by simp
qed simp_all

lemma no_ready_resolved:
  assumes b: "bounded N p" and r: "ready p = []"
  shows "resolved p"
proof -
  have "returned w" if w: "w \<in> set (workers p)" for w
  proof (rule ccontr)
    assume "\<not> returned w"
    with b w have run: "runnable w" by (rule bounded_all_runnable)
    from w obtain i where "i < length (workers p)" and "workers p ! i = w"
      by (auto simp: in_set_conv_nth)
    with run have "i \<in> set (ready p)" by (simp add: ready_def)
    with r show False by simp
  qed
  then show ?thesis by (simp add: resolved_def list_all_iff)
qed

lemma drive_resolves:
  "bounded N p \<Longrightarrow> \<forall>t \<in> set tasks. settles_within N t \<Longrightarrow> N + 2 \<le> K \<Longrightarrow>
   cost tasks K p \<le> length sched \<Longrightarrow> resolved (snd (drive tasks sched p))"
proof (induction sched arbitrary: p)
  case Nil
  have "returned w" if w: "w \<in> set (workers p)" for w
  proof -
    from Nil.prems(4) w have "wt w = 0" by (auto simp: cost_def)
    then show ?thesis by (cases w) simp_all
  qed
  then show ?case by (simp add: resolved_def list_all_iff)
next
  case (Cons j js)
  show ?case
  proof (cases "ready p")
    case Nil
    with Cons.prems show ?thesis by (simp add: no_ready_resolved)
  next
    case (Cons i "is")
    let ?i = "(i # is) ! (j mod length (i # is))"
    have mem: "?i \<in> set (ready p)" using Cons by (rule pick_ready)
    note step = resume_cost [OF Cons.prems(1) Cons.prems(2) Cons.prems(3)
        ready_less [OF mem] ready_runnable [OF mem]]
    from step Cons.prems(4) have "cost tasks K (resume tasks ?i p) \<le> length js" by simp
    from Cons.IH [OF _ Cons.prems(2) Cons.prems(3) this] step Cons show ?thesis by simp
  qed
qed

text \<open>
  Claim C6. With a limit of at least \<open>1\<close>, whatever the tasks, the schedule and the
  state: when the call resolves, \<open>results\<close> has the length of \<open>tasks\<close>, every task was
  called exactly once (the calls are those of the indices \<open>0\<close>, ..., \<open>n - 1\<close>, each
  once), and slot \<open>i\<close> holds a value that the call of \<open>tasks[i]\<close> resolved to, or the
  error it was rejected with, wrapped, at its own index; a task that fails stops no
  other. And the call does resolve: when every task settles within \<open>N\<close> pieces, any
  schedule of \<open>n * (N + 2)\<close> steps brings every worker to its end.
\<close>

theorem runConcurrent_results:
  assumes c: "1 \<le> limit"
  shows "(resolved (snd (runConcurrent tasks limit sched s)) \<longrightarrow>
           length (results (snd (runConcurrent tasks limit sched s))) = length tasks \<and>
           calls (snd (runConcurrent tasks limit sched s)) = [0..<length tasks] \<and>
           (\<forall>i<length tasks.
              (\<exists>v. results (snd (runConcurrent tasks limit sched s)) ! i = Value v \<and>
                   reach (tasks ! i) (Done v)) \<or>
              (\<exists>e. results (snd (runConcurrent tasks limit sched s)) ! i = ErrorObj e \<and>
                   reach (tasks ! i) (Fail e)))) \<and>
         ((\<forall>t \<in> set tasks. settles_within N t) \<and> length tasks * (N + 2) \<le> length sched \<longrightarrow>
           resolved (snd (runConcurrent tasks limit sched s)))"
proof (intro conjI impI)
  let ?init = "\<lparr>index = 0, results = replicate (length tasks) Empty, workers = [],
              calls = [], shared = s\<rparr> :: ('a, 'b) pool"
  let ?k = "nat (min limit (int (length tasks)))"
  let ?spawned = "spawn tasks ?k ?init"
  let ?final = "snd (runConcurrent tasks limit sched s)"
  have p: "?final = snd (drive tasks sched ?spawned)" by (simp add: runConcurrent_def)
  have inv1: "pool_inv tasks ?spawned" by (intro pool_inv_spawn pool_inv_init)
  have inv: "pool_inv tasks ?final" and len: "length (workers ?final) = ?k"
    using drive_inv [OF inv1, of sched] by (simp_all add: p length_workers_spawn)
  {
    assume res: "resolved ?final"
    have "workers ?final = [] \<Longrightarrow> length tasks = 0"
      using len c by (auto simp: min_def split: if_splits)
    with inv res
    show "length (results ?final) = length tasks"
      and "calls ?final = [0..<length tasks]"
      and "\<forall>i<length tasks.
              (\<exists>v. results ?final ! i = Value v \<and> reach (tasks ! i) (Done v)) \<or>
              (\<exists>e. results ?final ! i = ErrorObj e \<and> reach (tasks ! i) (Fail e))"
      using pool_inv_resolved [of tasks ?final] by blast+
  }
  {
    assume a: "(\<forall>t \<in> set tasks. settles_within N t) \<and> length tasks * (N + 2) \<le> length sched"
    then have t: "\<forall>t \<in> set tasks. settles_within N t"
      and l: "length tasks * (N + 2) \<le> length sched" by simp_all
    have b0: "bounded N ?init" by (simp add: bounded_def)
    have c0: "cost tasks (N + 2) ?init = length tasks * (N + 2)" by (simp only: cost_def) simp
    from spawn_cost [OF b0 t order_refl, of ?k]
    have b1: "bounded N ?spawned" and "cost tasks (N + 2) ?spawned \<le> cost tasks (N + 2) ?init" by blast+
    with c0 l have c1: "cost tasks (N + 2) ?spawned \<le> length sched" by (simp only:)
    have "resolved (snd (drive tasks sched ?spawned))"
      using b1 t order_refl c1 by (rule drive_resolves)
    then show "resolved ?final" by (simp only: p)
  }
qed

theorem runConcurrent_results_witness:
  "resolved (snd (runConcurrent [taskA, taskB, taskC] 2 [0, 1, 0, 1, 0, 1, 0, 1, 0] [])) \<and>
   length (results (snd (runConcurrent [taskA, taskB, taskC] 2 [0, 1, 0, 1, 0, 1, 0, 1, 0] []))) = 3 \<and>
   calls (snd (runConcurrent [taskA, taskB, taskC] 2 [0, 1, 0, 1, 0, 1, 0, 1, 0] [])) = [0, 1, 2] \<and>
   results (snd (runConcurrent [taskA, taskB, taskC] 2 [0, 1, 0, 1, 0, 1, 0, 1, 0] [])) =
     [Value 100, ErrorObj (Error ''boom''), Value 300]"
proof -
  have c: "(1::int) \<le> 2" by simp
  have t: "\<forall>t \<in> set [taskA, taskB, taskC]. settles_within 1 t"
    by (simp add: settles_within_def taskA_def taskB_def taskC_def)
  have l: "length [taskA, taskB, taskC] * (1 + 2) \<le> length [0, 1, 0, 1, 0, 1, 0, 1, 0::nat]"
    by simp
  note r = runConcurrent_results [OF c, of "[taskA, taskB, taskC]"
      "[0, 1, 0, 1, 0, 1, 0, 1, 0]" "[]" 1]
  from r t l
  have res: "resolved (snd (runConcurrent [taskA, taskB, taskC] 2 [0, 1, 0, 1, 0, 1, 0, 1, 0] []))"
    by blast
  with r
  have "length (results (snd (runConcurrent [taskA, taskB, taskC] 2
            [0, 1, 0, 1, 0, 1, 0, 1, 0] []))) = length [taskA, taskB, taskC]"
    and "calls (snd (runConcurrent [taskA, taskB, taskC] 2 [0, 1, 0, 1, 0, 1, 0, 1, 0] [])) =
           [0..<length [taskA, taskB, taskC]]"
    by blast+
  moreover have "[0..<length [taskA, taskB, taskC]] = [0, 1, 2]"
    by (simp add: upt_rec)
  moreover have
    "results (snd (runConcurrent [taskA, taskB, taskC] 2 [0, 1, 0, 1, 0, 1, 0, 1, 0] [])) =
       [Value 100, ErrorObj (Error ''boom''), Value 300]"
    by (simp add: eval_pool taskA_def taskB_def taskC_def cong: eval_cong)
  ultimately show ?thesis using res by simp
qed

subsection \<open>A limit of zero or less\<close>

text \<open>
  Claim C4 says that a limit of \<open>0\<close> or less is treated as \<open>1\<close>. With the limit \<open>0\<close> the
  call on one task resolves with the slot of the task empty and the task never called;
  with the limit \<open>1\<close>, on the same schedule, the task is called and its value stored.
\<close>

theorem runConcurrent_limit_zero_counterexample:
  "resolved (snd (runConcurrent [taskA] 0 [0, 0, 0] [])) \<and>
   results (snd (runConcurrent [taskA] 0 [0, 0, 0] [])) = [Empty] \<and>
   calls (snd (runConcurrent [taskA] 0 [0, 0, 0] [])) = [] \<and>
   shared (snd (runConcurrent [taskA] 0 [0, 0, 0] [])) = [] \<and>
   resolved (snd (runConcurrent [taskA] 1 [0, 0, 0] [])) \<and>
   results (snd (runConcurrent [taskA] 1 [0, 0, 0] [])) = [Value 100] \<and>
   calls (snd (runConcurrent [taskA] 1 [0, 0, 0] [])) = [0] \<and>
   shared (snd (runConcurrent [taskA] 1 [0, 0, 0] [])) = [1, 11]"
  by (simp add: eval_pool taskA_def cong: eval_cong)

text \<open>
  Claim C4, amended. With a limit of \<open>0\<close> or less no worker is started: the call
  resolves at once, no task is called, every slot of the result is empty, and the state
  and the schedule are untouched.
\<close>

theorem runConcurrent_no_worker:
  assumes "limit \<le> 0"
  shows "runConcurrent tasks limit sched s =
           (sched, \<lparr>index = 0, results = replicate (length tasks) Empty, workers = [],
                    calls = [], shared = s\<rparr>) \<and>
         resolved (snd (runConcurrent tasks limit sched s))"
  using assms by (cases sched) (simp_all add: runConcurrent_def ready_def resolved_def)

theorem runConcurrent_no_worker_witness:
  "runConcurrent [taskA, taskB] (- 3) [0, 1] [] =
     ([0, 1], \<lparr>index = 0, results = [Empty, Empty], workers = [], calls = [], shared = []\<rparr>) \<and>
   resolved (snd (runConcurrent [taskA, taskB] (- 3) [0, 1] []))"
  using runConcurrent_no_worker [of "- 3" "[taskA, taskB]" "[0, 1]" "[]"]
  by (simp add: resolved_def)

section \<open>Properties of a test's task\<close>

lemma run_ret: "run (ret a) s = (s, Fulfilled a)"
  by (simp add: run_def ret_def)

lemma run_throw: "run (throw e) s = (s, Rejected e)"
  by (simp add: run_def throw_def)

lemma run_never: "run never s = (s, Pending)"
  by (simp add: run_def never_def)

lemma run_act: "run (act f) s = (f s, Fulfilled ())"
  by (simp add: run_def act_def)

lemma run_suspend: "run (suspend c) s = run c s"
  by (simp add: run_def [of "suspend c"] suspend_def runSusp_Await del: runSusp.simps(4))

lemma runSusp_then:
  "(case thenSusp r f s of (s', r') \<Rightarrow> runSusp r' s') =
   (case runSusp r s of
      (s', Fulfilled a) \<Rightarrow> run (f a) s'
    | (s', Rejected e) \<Rightarrow> (s', Rejected e)
    | (s', Pending) \<Rightarrow> (s', Pending))"
proof (induction r arbitrary: s)
  case (Await k)
  have "snd (k s) \<in> Basic_BNFs.snds (k s)"
    by (cases "k s") simp
  from Await [OF rangeI this, of "fst (k s)"]
  show ?case
    by (simp add: thenSusp_Await runSusp_Await run_def andThen_def split_beta
        del: thenSusp.simps(4) runSusp.simps(4))
qed (simp_all add: run_def)

lemma run_andThen:
  "run (andThen c f) s =
   (case run c s of
      (s', Fulfilled a) \<Rightarrow> run (f a) s'
    | (s', Rejected e) \<Rightarrow> (s', Rejected e)
    | (s', Pending) \<Rightarrow> (s', Pending))"
  using runSusp_then [of "snd (c s)" f "fst (c s)"]
  by (simp add: run_def andThen_def split_beta)

lemma runSusp_catch:
  "(case catchSusp r h s of (s', r') \<Rightarrow> runSusp r' s') =
   (case runSusp r s of
      (s', Fulfilled a) \<Rightarrow> (s', Fulfilled a)
    | (s', Rejected e) \<Rightarrow> run (h e) s'
    | (s', Pending) \<Rightarrow> (s', Pending))"
proof (induction r arbitrary: s)
  case (Await k)
  have "snd (k s) \<in> Basic_BNFs.snds (k s)"
    by (cases "k s") simp
  from Await [OF rangeI this, of "fst (k s)"]
  show ?case
    by (simp add: catchSusp_Await runSusp_Await run_def tryCatch_def split_beta
        del: catchSusp.simps(4) runSusp.simps(4))
qed (simp_all add: run_def)

lemma run_tryCatch:
  "run (tryCatch c h) s =
   (case run c s of
      (s', Fulfilled a) \<Rightarrow> (s', Fulfilled a)
    | (s', Rejected e) \<Rightarrow> run (h e) s'
    | (s', Pending) \<Rightarrow> (s', Pending))"
  using runSusp_catch [of "snd (c s)" h "fst (c s)"]
  by (simp add: run_def tryCatch_def split_beta)

lemma run_invoke:
  "run (invoke f this a) w = (called a (snd (f this (memory w))) w, Fulfilled (fst (f this (memory w))))"
  by (simp add: run_def invoke_def called_def split_beta)

lemma run_await:
  "run (await r) w =
     (case r of
        Returns d \<Rightarrow> (w, Fulfilled ())
      | Throws d e \<Rightarrow> (w, Rejected e)
      | Never \<Rightarrow> (w, Pending))"
  by (cases r) (simp_all add: run_suspend run_ret run_throw run_never await.simps [abs_def])

lemma run_runHooks_Nil: "run (runHooks [] this) w = (w, Fulfilled ())"
  by (simp add: run_ret runHooks.simps(1) [abs_def])

lemma run_runHooks_Cons:
  "run (runHooks (h # hs) this) w =
     (case fst (hook_fn h this (memory w)) of
        Returns d \<Rightarrow>
          run (runHooks hs this)
            (called (CallHook (hook_name h) this) (snd (hook_fn h this (memory w))) w)
      | Throws d e \<Rightarrow>
          (called (CallHook (hook_name h) this) (snd (hook_fn h this (memory w))) w,
           Rejected e)
      | Never \<Rightarrow>
          (called (CallHook (hook_name h) this) (snd (hook_fn h this (memory w))) w, Pending))"
  by (simp add: runHooks.simps(2) [abs_def] run_andThen run_invoke run_await
      split: settled.splits)

lemma events_append: "events (xs @ ys) = events xs @ events ys"
  by (induction xs rule: events.induct) simp_all

lemma bodyCalls_append: "bodyCalls (xs @ ys) = bodyCalls xs @ bodyCalls ys"
  by (induction xs rule: bodyCalls.induct) simp_all

lemma events_hookCalls: "events (hookCalls hs this) = []"
  by (induction hs) (simp_all add: hookCalls_def)

lemma bodyCalls_hookCalls: "bodyCalls (hookCalls hs this) = []"
  by (induction hs) (simp_all add: hookCalls_def)

lemma events_replicate_body: "events (replicate n (CallBody x this)) = []"
  by (induction n) simp_all

lemma bodyCalls_replicate: "bodyCalls (replicate n (CallBody x this)) = replicate n (x, this)"
  by (induction n) simp_all

lemma run_attempt:
  "run (attempt t this) w =
     (case raced t (fst (testFn t this (memory w))) of
        Returns d \<Rightarrow> (bodyCall t this w, Fulfilled (None, d))
      | Throws d e \<Rightarrow> (bodyCall t this w, Fulfilled (Some e, d))
      | Never \<Rightarrow> (bodyCall t this w, Pending))"
  by (simp add: attempt_def [abs_def] run_andThen run_tryCatch run_invoke run_await run_ret
      bodyCall_def split: settled.splits)

lemma run_attemptLoop:
  "run (attemptLoop t this retryLimit attempts elapsed) w =
     (case raced t (fst (testFn t this (memory w))) of
        Returns d \<Rightarrow> (bodyCall t this w, Fulfilled (None, elapsed + d))
      | Throws d e \<Rightarrow>
          if attempts + 1 \<le> retryLimit
          then run (attemptLoop t this retryLimit (attempts + 1) (elapsed + d)) (bodyCall t this w)
          else (bodyCall t this w, Fulfilled (Some e, elapsed + d))
      | Never \<Rightarrow> (bodyCall t this w, Pending))"
  by (subst attemptLoop.simps [abs_def])
    (simp add: run_andThen run_attempt run_ret split: settled.splits)

lemma run_emit: "run (emit ev) w = (reported ev w, Fulfilled ())"
  by (simp add: emit_def [abs_def] run_act reported_def)

lemma run_verdict:
  "run (case error of
          None \<Rightarrow> emit (TestPass (title t) d)
        | Some err \<Rightarrow>
            if truthy_thrown err then emit (TestFail (title t) d err)
            else emit (TestPass (title t) d)) w =
   (reported (verdict t d error) w, Fulfilled ())"
  by (simp add: run_emit verdict_def split: option.splits)

lemma run_testTask:
  "run (testTask this before after t) w =
     (case run (runHooks before this) w of
        (w1, Fulfilled u) \<Rightarrow>
          (case run (attemptLoop t this (retry t) 0 0) (started t w1) of
             (w3, Fulfilled (error, d)) \<Rightarrow>
               (case run (runHooks after this) w3 of
                  (w4, Fulfilled u') \<Rightarrow> (reported (verdict t d error) w4, Fulfilled ())
                | (w4, Rejected e) \<Rightarrow> (w4, Rejected e)
                | (w4, Pending) \<Rightarrow> (w4, Pending))
           | (w3, Rejected e) \<Rightarrow> (w3, Rejected e)
           | (w3, Pending) \<Rightarrow> (w3, Pending))
      | (w1, Rejected e) \<Rightarrow> (w1, Rejected e)
      | (w1, Pending) \<Rightarrow> (w1, Pending))"
  by (simp add: testTask_def [abs_def] run_andThen run_emit run_act run_verdict
      started_def reported_def split: prod.splits outcome.splits)

lemma trace_called [simp]: "trace (called a m w) = trace w @ [a]"
  by (simp add: called_def)

lemma trace_bodyCall [simp]: "trace (bodyCall t this w) = trace w @ [CallBody (title t) this]"
  by (simp add: bodyCall_def)

lemma memory_bodyCall [simp]: "memory (bodyCall t this w) = snd (testFn t this (memory w))"
  by (simp add: bodyCall_def called_def)

lemma started_simps [simp]:
  "trace (started t w) = trace w @ [Emit (TestStart (title t))]"
  "memory (started t w) = memory w"
  by (simp_all add: started_def)

lemma trace_reported [simp]: "trace (reported ev w) = trace w @ [Emit ev]"
  by (simp add: reported_def)

lemma runHooks_ok:
  "run (runHooks hs this) w = (w', Fulfilled u) \<Longrightarrow> trace w' = trace w @ hookCalls hs this"
proof (induction hs arbitrary: w)
  case Nil
  then show ?case by (simp add: run_runHooks_Nil hookCalls_def)
next
  case (Cons h hs)
  show ?case
  proof (cases "fst (hook_fn h this (memory w))")
    case (Returns d)
    with Cons.prems Cons.IH [of "called (CallHook (hook_name h) this)
        (snd (hook_fn h this (memory w))) w"]
    show ?thesis by (simp add: run_runHooks_Cons hookCalls_def)
  next
    case (Throws d e)
    with Cons.prems show ?thesis by (simp add: run_runHooks_Cons)
  next
    case Never
    with Cons.prems show ?thesis by (simp add: run_runHooks_Cons)
  qed
qed

lemma runHooks_stop:
  "run (runHooks hs this) w = (w', r) \<Longrightarrow> r \<noteq> Fulfilled () \<Longrightarrow>
   \<exists>k<length hs. trace w' = trace w @ hookCalls (take (Suc k) hs) this"
proof (induction hs arbitrary: w)
  case Nil
  then show ?case by (simp add: run_runHooks_Nil)
next
  case (Cons h hs)
  let ?w = "called (CallHook (hook_name h) this) (snd (hook_fn h this (memory w))) w"
  show ?case
  proof (cases "fst (hook_fn h this (memory w))")
    case (Returns d)
    with Cons.prems have "run (runHooks hs this) ?w = (w', r)"
      by (simp add: run_runHooks_Cons)
    from Cons.IH [OF this Cons.prems(2)]
    obtain k where "k < length hs"
      and "trace w' = trace ?w @ hookCalls (take (Suc k) hs) this"
      by blast
    then have "Suc k < length (h # hs) \<and>
        trace w' = trace w @ hookCalls (take (Suc (Suc k)) (h # hs)) this"
      by (simp add: hookCalls_def)
    then show ?thesis by blast
  next
    case (Throws d e)
    with Cons.prems have "trace w' = trace w @ hookCalls (take (Suc 0) (h # hs)) this"
      by (auto simp: run_runHooks_Cons hookCalls_def)
    then show ?thesis by auto
  next
    case Never
    with Cons.prems have "trace w' = trace w @ hookCalls (take (Suc 0) (h # hs)) this"
      by (auto simp: run_runHooks_Cons hookCalls_def)
    then show ?thesis by auto
  qed
qed

lemma attemptLoop_first_call:
  "\<exists>rest. trace (fst (run (attemptLoop t this retryLimit attempts elapsed) w)) =
          trace w @ CallBody (title t) this # rest"
proof (induction "nat (retryLimit - attempts)" arbitrary: attempts elapsed w)
  case 0
  then have "\<not> attempts + 1 \<le> retryLimit" by simp
  then show ?case
    by (subst run_attemptLoop) (simp split: settled.splits)
next
  case (Suc n)
  then have le: "attempts + 1 \<le> retryLimit" and n: "n = nat (retryLimit - (attempts + 1))"
    by simp_all
  show ?case
  proof (cases "raced t (fst (testFn t this (memory w)))")
    case (Returns d)
    then show ?thesis by (subst run_attemptLoop) simp
  next
    case (Throws d e)
    from Suc.hyps(1) [OF n, of "elapsed + d" "bodyCall t this w"]
    obtain rest where
      "trace (fst (run (attemptLoop t this retryLimit (attempts + 1) (elapsed + d))
                     (bodyCall t this w))) =
         trace (bodyCall t this w) @ CallBody (title t) this # rest"
      by blast
    with Throws le show ?thesis by (subst run_attemptLoop) simp
  next
    case Never
    then show ?thesis by (subst run_attemptLoop) simp
  qed
qed

subsection \<open>A failing before chain\<close>

text \<open>
  Claim C1 says that a test whose before chain throws is reported by a \<open>testFail\<close>
  event. A suite with one test and a \<open>beforeEach\<close> hook that throws: the run of the suite
  is fulfilled, the hook is the only thing called, and no event at all is emitted.
\<close>

theorem before_hook_failure_counterexample:
  "(case runSuite cfg0 failingSuite None [] [] [0, 0, 0, 0] (worldWith 1 []) of
      (r, s, sch, w) \<Rightarrow> (r, trace w, events (trace w), globals (memory w))) =
   (Fulfilled (), [CallHook ''boom'' 1], [], [''boom''])"
  by (simp add: eval_comp eval_pool eval_suite cfg0_def failingSuite_def worldWith_def
      passing_def throwHook_def logHook_def cong: eval_cong)

text \<open>
  Claim C1, amended. When a hook of the before chain throws, the task of the test is
  rejected with what the hook threw, in the state the chain left: only hooks of the
  before chain were called, up to the one that threw; the body is not called, no hook of
  the after chain is called, and no event is emitted for the test.
\<close>

theorem before_hook_failure:
  assumes "run (runHooks before this) w = (w1, Rejected e)"
  shows "run (testTask this before after t) w = (w1, Rejected e) \<and>
         (\<exists>k<length before. trace w1 = trace w @ hookCalls (take (Suc k) before) this) \<and>
         events (trace w1) = events (trace w) \<and>
         bodyCalls (trace w1) = bodyCalls (trace w)"
proof -
  have r: "run (testTask this before after t) w = (w1, Rejected e)"
    using assms by (simp add: run_testTask)
  from runHooks_stop [OF assms]
  obtain k where k: "k < length before"
    and tr: "trace w1 = trace w @ hookCalls (take (Suc k) before) this"
    by auto
  from tr have "events (trace w1) = events (trace w)"
    and "bodyCalls (trace w1) = bodyCalls (trace w)"
    by (simp_all add: events_append bodyCalls_append events_hookCalls bodyCalls_hookCalls)
  with r k tr show ?thesis by blast
qed

theorem before_hook_failure_witness:
  "run (testTask 0 [logHook ''setup'', throwHook ''boom''] [logHook ''cleanup'']
          (passing ''adds'')) (emptyWorld []) =
     (\<lparr>trace = [CallHook ''setup'' 0, CallHook ''boom'' 0], currentTestTitle = None,
       fresh = 0,
       memory = \<lparr>objects = Map.empty, globals = [''setup'', ''boom'']\<rparr>\<rparr>,
      Rejected (Error ''boom''))"
proof -
  have "run (runHooks [logHook ''setup'', throwHook ''boom''] 0) (emptyWorld []) =
     (\<lparr>trace = [CallHook ''setup'' 0, CallHook ''boom'' 0], currentTestTitle = None,
       fresh = 0,
       memory = \<lparr>objects = Map.empty, globals = [''setup'', ''boom'']\<rparr>\<rparr>,
      Rejected (Error ''boom''))"
    by (simp add: eval_comp emptyWorld_def throwHook_def logHook_def cong: eval_cong)
  from before_hook_failure [OF this, of "[logHook ''cleanup'']" "passing ''adds''"]
  show ?thesis by blast
qed

subsection \<open>The order of the before chain and testStart\<close>

text \<open>
  Claim C2 says that \<open>testStart\<close> is emitted before any hook of the before chain runs.
  For a test with one \<open>beforeEach\<close> hook the hook is called first.
\<close>

theorem testStart_first_counterexample:
  "trace (fst (run (testTask 0 [logHook ''setup''] [] (passing ''adds'')) (emptyWorld []))) =
     [CallHook ''setup'' 0, Emit (TestStart ''adds''), CallBody ''adds'' 0,
      Emit (TestPass ''adds'' 0)]"
  by (simp add: eval_comp emptyWorld_def passing_def logHook_def cong: eval_cong)

text \<open>
  Claim C2, amended. The task of a test runs the before chain first; when the chain
  completes, the task emits \<open>testStart\<close> and then enters the attempt loop: every hook of
  the before chain is called, in order, then comes the \<open>testStart\<close> event, then the first
  call of the body.
\<close>

theorem testStart_after_before_chain:
  assumes "run (runHooks before this) w = (w1, Fulfilled ())"
  shows "\<exists>rest. trace (fst (run (testTask this before after t) w)) =
           trace w @ hookCalls before this @
           Emit (TestStart (title t)) # CallBody (title t) this # rest"
proof -
  have t1: "trace w1 = trace w @ hookCalls before this"
    using assms by (rule runHooks_ok)
  obtain w3 r3 where a: "run (attemptLoop t this (retry t) 0 0) (started t w1) = (w3, r3)"
    by (cases "run (attemptLoop t this (retry t) 0 0) (started t w1)")
  from attemptLoop_first_call [of t this "retry t" 0 0 "started t w1"] a
  obtain rest where t3: "trace w3 = trace (started t w1) @ CallBody (title t) this # rest"
    by auto
  obtain w4 r4 where h: "run (runHooks after this) w3 = (w4, r4)"
    by (cases "run (runHooks after this) w3")
  have "\<exists>ys. trace w4 = trace w3 @ ys"
  proof (cases "r4 = Fulfilled ()")
    case True
    with h runHooks_ok [of after this w3 w4] show ?thesis by auto
  next
    case False
    with runHooks_stop [OF h] show ?thesis by auto
  qed
  then obtain ys where t4: "trace w4 = trace w3 @ ys" by blast
  show ?thesis
  proof (cases r3)
    case (Fulfilled p)
    show ?thesis
      using assms a h Fulfilled t1 t3 t4
      by (cases r4; cases p) (simp_all add: run_testTask)
  next
    case (Rejected e)
    with assms a t1 t3 show ?thesis by (simp add: run_testTask)
  next
    case Pending
    with assms a t1 t3 show ?thesis by (simp add: run_testTask)
  qed
qed

theorem testStart_after_before_chain_witness:
  "\<exists>rest. trace (fst (run (testTask 0 [logHook ''setup'', logHook ''login''] []
                            (passing ''adds'')) (emptyWorld []))) =
           [CallHook ''setup'' 0, CallHook ''login'' 0, Emit (TestStart ''adds''),
            CallBody ''adds'' 0] @ rest"
proof -
  have "run (runHooks [logHook ''setup'', logHook ''login''] 0) (emptyWorld []) =
     (\<lparr>trace = [CallHook ''setup'' 0, CallHook ''login'' 0], currentTestTitle = None,
       fresh = 0,
       memory = \<lparr>objects = Map.empty, globals = [''setup'', ''login'']\<rparr>\<rparr>,
      Fulfilled ())"
    by (simp add: eval_comp emptyWorld_def logHook_def cong: eval_cong)
  from testStart_after_before_chain [OF this, of "[]" "passing ''adds''"]
  show ?thesis
    by (simp add: hookCalls_def emptyWorld_def passing_def logHook_def)
qed

subsection \<open>Retries\<close>

lemma attemptLoop_passes:
  "failsThenPasses t this n (memory w) \<Longrightarrow> attempts + int n \<le> retryLimit \<Longrightarrow>
   \<exists>w' d. run (attemptLoop t this retryLimit attempts elapsed) w = (w', Fulfilled (None, d)) \<and>
        trace w' = trace w @ replicate (Suc n) (CallBody (title t) this)"
proof (induction n arbitrary: w attempts elapsed)
  case 0
  then show ?case
    by (subst run_attemptLoop) (auto split: settled.splits)
next
  case (Suc n)
  from Suc.prems(1) obtain d e
    where thr: "raced t (fst (testFn t this (memory w))) = Throws d e"
      and rest: "failsThenPasses t this n (snd (testFn t this (memory w)))"
    by (auto split: settled.splits)
  from Suc.prems(2) have le: "attempts + 1 \<le> retryLimit"
    and le': "attempts + 1 + int n \<le> retryLimit" by simp_all
  from Suc.IH [of "bodyCall t this w" "attempts + 1" "elapsed + d"] rest le'
  obtain w' d' where
    "run (attemptLoop t this retryLimit (attempts + 1) (elapsed + d)) (bodyCall t this w) =
       (w', Fulfilled (None, d'))"
    and "trace w' = trace (bodyCall t this w) @ replicate (Suc n) (CallBody (title t) this)"
    by auto
  with thr le show ?case
    by (subst run_attemptLoop) (simp add: replicate_app_Cons_same)
qed

text \<open>
  Claim C7. With a retry budget \<open>retry t\<close>, a test whose body fails on its first \<open>n\<close>
  attempts and succeeds on attempt \<open>n + 1\<close>, for any \<open>n\<close> within the budget, is reported
  as passed: its task emits \<open>testStart\<close> and \<open>testPass\<close> and no other event, and the body
  is called \<open>n + 1\<close> times and no more, whatever is left of the budget. With \<open>n\<close> the
  whole budget \<open>r\<close> these are the \<open>r + 1\<close> calls of the claim. The before chain is taken
  to complete, and so is the after chain in the state the attempts leave.
\<close>

theorem retry_then_pass:
  assumes before: "run (runHooks before this) w = (w1, Fulfilled ())"
    and body: "failsThenPasses t this n (memory w1)"
    and budget: "int n \<le> retry t"
    and after: "run (runHooks after this)
                  (fst (run (attemptLoop t this (retry t) 0 0) (started t w1))) =
                (w4, Fulfilled ())"
  shows "\<exists>w' d. run (testTask this before after t) w = (w', Fulfilled ()) \<and>
           events (trace w') = events (trace w) @ [TestStart (title t), TestPass (title t) d] \<and>
           bodyCalls (trace w') = bodyCalls (trace w) @ replicate (n + 1) (title t, this)"
proof -
  have t1: "trace w1 = trace w @ hookCalls before this"
    using before by (rule runHooks_ok)
  from attemptLoop_passes [of t this n "started t w1" 0 "retry t" 0] body budget
  obtain w3 d where
    a: "run (attemptLoop t this (retry t) 0 0) (started t w1) = (w3, Fulfilled (None, d))"
    and t3: "trace w3 = trace (started t w1) @ replicate (Suc n) (CallBody (title t) this)"
    by auto
  from after a have h: "run (runHooks after this) w3 = (w4, Fulfilled ())"
    by simp
  then have t4: "trace w4 = trace w3 @ hookCalls after this" by (rule runHooks_ok)
  have "run (testTask this before after t) w =
          (reported (verdict t d None) w4, Fulfilled ())"
    using before a h by (simp add: run_testTask)
  moreover have "events (trace (reported (verdict t d None) w4)) =
      events (trace w) @ [TestStart (title t), TestPass (title t) d]"
    by (simp add: t1 t3 t4 events_append events_hookCalls events_replicate_body verdict_def)
  moreover have "bodyCalls (trace (reported (verdict t d None) w4)) =
      bodyCalls (trace w) @ replicate (n + 1) (title t, this)"
    by (simp add: t1 t3 t4 bodyCalls_append bodyCalls_hookCalls bodyCalls_replicate verdict_def)
  ultimately show ?thesis by blast
qed

theorem retry_then_pass_witness:
  "\<exists>w' d. run (testTask 0 [logHook ''setup''] [logHook ''cleanup''] (flaky ''sometimes'' 1 3))
            (emptyWorld []) = (w', Fulfilled ()) \<and>
          events (trace w') = [TestStart ''sometimes'', TestPass ''sometimes'' d] \<and>
          bodyCalls (trace w') = [(''sometimes'', 0), (''sometimes'', 0)]"
proof -
  have b: "run (runHooks [logHook ''setup''] 0) (emptyWorld []) =
     (\<lparr>trace = [CallHook ''setup'' 0], currentTestTitle = None, fresh = 0,
       memory = \<lparr>objects = Map.empty, globals = [''setup'']\<rparr>\<rparr>,
      Fulfilled ())"
    by (simp add: eval_comp emptyWorld_def logHook_def cong: eval_cong)
  have f: "failsThenPasses (flaky ''sometimes'' 1 3) 0 1
      (memory \<lparr>trace = [CallHook ''setup'' 0], currentTestTitle = None, fresh = 0,
         memory = \<lparr>objects = Map.empty, globals = [''setup'']\<rparr>\<rparr>)"
    by (simp add: flaky_def raced_def eval_nat_numeral)
  have g: "int 1 \<le> retry (flaky ''sometimes'' 1 3)"
    by (simp add: flaky_def)
  have a: "run (runHooks [logHook ''cleanup''] 0)
      (fst (run (attemptLoop (flaky ''sometimes'' 1 3) 0 (retry (flaky ''sometimes'' 1 3)) 0 0)
         (started (flaky ''sometimes'' 1 3)
            \<lparr>trace = [CallHook ''setup'' 0], currentTestTitle = None, fresh = 0,
             memory = \<lparr>objects = Map.empty, globals = [''setup'']\<rparr>\<rparr>))) =
     (\<lparr>trace = [CallHook ''setup'' 0, Emit (TestStart ''sometimes''),
                CallBody ''sometimes'' 0, CallBody ''sometimes'' 0, CallHook ''cleanup'' 0],
       currentTestTitle = Some ''sometimes'', fresh = 0,
       memory = \<lparr>objects = Map.empty,
                 globals = [''setup'', ''sometimes'', ''sometimes'', ''cleanup'']\<rparr>\<rparr>,
      Fulfilled ())"
    by (simp add: eval_comp started_def flaky_def logHook_def cong: eval_cong)
  from retry_then_pass [OF b f g a]
  show ?thesis
    by (simp add: flaky_def emptyWorld_def eval_nat_numeral)
qed

subsection \<open>Timeouts\<close>

lemma attemptLoop_times_out:
  assumes "\<forall>m. raced t (fst (testFn t this m)) = Throws D timeoutError"
  shows "\<exists>w'. run (attemptLoop t this retryLimit attempts elapsed) w =
          (w', Fulfilled (Some timeoutError,
                          elapsed + Suc (nat (retryLimit - attempts)) * D)) \<and>
        trace w' = trace w @ replicate (Suc (nat (retryLimit - attempts))) (CallBody (title t) this)"
proof (induction "nat (retryLimit - attempts)" arbitrary: attempts elapsed w)
  case 0
  then have "\<not> attempts + 1 \<le> retryLimit" by simp
  with 0 assms show ?case
    by (subst run_attemptLoop) simp
next
  case (Suc n)
  then have le: "attempts + 1 \<le> retryLimit" and n: "n = nat (retryLimit - (attempts + 1))"
    by simp_all
  from Suc.hyps(1) [OF n, of "elapsed + D" "bodyCall t this w"]
  obtain w' where
    "run (attemptLoop t this retryLimit (attempts + 1) (elapsed + D)) (bodyCall t this w) =
       (w', Fulfilled (Some timeoutError,
                       elapsed + D + Suc (nat (retryLimit - (attempts + 1))) * D))"
    and "trace w' = trace (bodyCall t this w) @
           replicate (Suc (nat (retryLimit - (attempts + 1)))) (CallBody (title t) this)"
    by blast
  with le assms n Suc.hyps(2) [symmetric] show ?case
    by (subst run_attemptLoop) (simp add: replicate_app_Cons_same)
qed

text \<open>
  Claim C8 says that the duration reported for a test that times out is about its
  timeout \<open>T\<close>, for every \<open>T\<close>. With the timeout \<open>2147483648\<close>, which \<open>setTimeout\<close> does not
  take, the timer of the race fires after one millisecond: a test whose body never
  settles fails with the timeout error and the duration \<open>1\<close>.
\<close>

theorem timeout_duration_counterexample:
  "events (trace (fst (run (testTask 0 [] [] (hanging ''stuck'' 2147483648 0)) (emptyWorld [])))) =
     [TestStart ''stuck'', TestFail ''stuck'' 1 (Error ''Test timed out'')]"
  by (simp add: eval_comp emptyWorld_def hanging_def cong: eval_cong)

text \<open>
  Claim C8, amended. For a test with a timeout \<open>T\<close> other than \<open>0\<close> whose body never
  settles, the task does end: every attempt is lost to the timer, the body is called
  once and once more for each retry, and the task emits \<open>testStart\<close> and then \<open>testFail\<close>
  with the error \<open>Test timed out\<close>. The duration reported is, for each attempt, \<open>T\<close>
  milliseconds when \<open>T\<close> is from \<open>1\<close> to \<open>2^31 - 1\<close>, and one millisecond for any other
  \<open>T\<close>. The before chain is taken to complete, and so is the after chain in the state the
  attempts leave.
\<close>

theorem timeout_fails:
  assumes T: "timeout t = Some T" "T \<noteq> 0"
    and never: "\<forall>m. fst (testFn t this m) = Never"
    and before: "run (runHooks before this) w = (w1, Fulfilled ())"
    and after: "run (runHooks after this)
                  (fst (run (attemptLoop t this (retry t) 0 0) (started t w1))) =
                (w4, Fulfilled ())"
  shows "\<exists>w'. run (testTask this before after t) w = (w', Fulfilled ()) \<and>
           events (trace w') =
             events (trace w) @
             [TestStart (title t),
              TestFail (title t)
                ((nat (retry t) + 1) * (if 1 \<le> T \<and> T \<le> 2147483647 then nat T else 1))
                timeoutError] \<and>
           bodyCalls (trace w') =
             bodyCalls (trace w) @ replicate (nat (retry t) + 1) (title t, this)"
proof -
  let ?D = "if 1 \<le> T \<and> T \<le> 2147483647 then nat T else 1"
  have t1: "trace w1 = trace w @ hookCalls before this"
    using before by (rule runHooks_ok)
  have "\<forall>m. raced t (fst (testFn t this m)) = Throws ?D timeoutError"
    using T never by (simp add: raced_def timerDelay_def)
  from attemptLoop_times_out [OF this, of "retry t" 0 0 "started t w1"]
  obtain w3 where a: "run (attemptLoop t this (retry t) 0 0) (started t w1) =
        (w3, Fulfilled (Some timeoutError, (nat (retry t) + 1) * ?D))"
    and t3: "trace w3 =
        trace (started t w1) @ replicate (Suc (nat (retry t))) (CallBody (title t) this)"
    by auto
  from after a have h: "run (runHooks after this) w3 = (w4, Fulfilled ())"
    by simp
  then have t4: "trace w4 = trace w3 @ hookCalls after this" by (rule runHooks_ok)
  let ?ev = "verdict t ((nat (retry t) + 1) * ?D) (Some timeoutError)"
  have ev: "?ev = TestFail (title t) ((nat (retry t) + 1) * ?D) timeoutError"
    by (simp add: verdict_def timeoutError_def)
  have "run (testTask this before after t) w = (reported ?ev w4, Fulfilled ())"
    using before a h by (simp add: run_testTask)
  moreover have "events (trace (reported ?ev w4)) =
      events (trace w) @
      [TestStart (title t), TestFail (title t) ((nat (retry t) + 1) * ?D) timeoutError]"
    by (simp only: ev) (simp add: t1 t3 t4 events_append events_hookCalls events_replicate_body)
  moreover have "bodyCalls (trace (reported ?ev w4)) =
      bodyCalls (trace w) @ replicate (nat (retry t) + 1) (title t, this)"
    by (simp only: ev) (simp add: t1 t3 t4 bodyCalls_append bodyCalls_hookCalls bodyCalls_replicate)
  ultimately show ?thesis by blast
qed

theorem timeout_fails_witness:
  "\<exists>w'. run (testTask 0 [logHook ''setup''] [logHook ''cleanup''] (hanging ''stuck'' 50 2))
            (emptyWorld []) = (w', Fulfilled ()) \<and>
          events (trace w') =
            [TestStart ''stuck'', TestFail ''stuck'' 150 (Error ''Test timed out'')] \<and>
          bodyCalls (trace w') = [(''stuck'', 0), (''stuck'', 0), (''stuck'', 0)]"
proof -
  have T: "timeout (hanging ''stuck'' 50 2) = Some 50" "(50::int) \<noteq> 0"
    by (simp_all add: hanging_def)
  have n: "\<forall>m. fst (testFn (hanging ''stuck'' 50 2) 0 m) = Never"
    by (simp add: hanging_def)
  have b: "run (runHooks [logHook ''setup''] 0) (emptyWorld []) =
     (\<lparr>trace = [CallHook ''setup'' 0], currentTestTitle = None, fresh = 0,
       memory = \<lparr>objects = Map.empty, globals = [''setup'']\<rparr>\<rparr>,
      Fulfilled ())"
    by (simp add: eval_comp emptyWorld_def logHook_def cong: eval_cong)
  have a: "run (runHooks [logHook ''cleanup''] 0)
      (fst (run (attemptLoop (hanging ''stuck'' 50 2) 0 (retry (hanging ''stuck'' 50 2)) 0 0)
         (started (hanging ''stuck'' 50 2)
            \<lparr>trace = [CallHook ''setup'' 0], currentTestTitle = None, fresh = 0,
             memory = \<lparr>objects = Map.empty, globals = [''setup'']\<rparr>\<rparr>))) =
     (\<lparr>trace = [CallHook ''setup'' 0, Emit (TestStart ''stuck''),
                CallBody ''stuck'' 0, CallBody ''stuck'' 0, CallBody ''stuck'' 0,
                CallHook ''cleanup'' 0],
       currentTestTitle = Some ''stuck'', fresh = 0,
       memory = \<lparr>objects = Map.empty,
                 globals = [''setup'', ''stuck'', ''stuck'', ''stuck'', ''cleanup'']\<rparr>\<rparr>,
      Fulfilled ())"
    by (simp add: eval_comp started_def hanging_def logHook_def cong: eval_cong)
  from timeout_fails [OF T n b a]
  show ?thesis
    by (simp add: hanging_def emptyWorld_def timeoutError_def eval_nat_numeral)
qed

text \<open>
  The duration of a test is the time of its own waits, whatever runs beside it: two
  tests that never settle, with timeouts of \<open>50\<close> and \<open>20\<close> milliseconds, run at the same
  time by the workers of a suite, fail with the durations \<open>50\<close> and \<open>20\<close>, the second
  test first.
\<close>

lemma timeouts_side_by_side:
  "(case runSuite cfg0 hangingSuite None [] [] [1, 0, 0, 0, 0, 0, 0, 0] (worldWith 1 []) of
      (r, s, sch, w) \<Rightarrow> (r, events (trace w))) =
   (Fulfilled (),
    [TestStart ''slow'', TestStart ''quick'',
     TestFail ''quick'' 20 (Error ''Test timed out''),
     TestFail ''slow'' 50 (Error ''Test timed out'')])"
  by (simp add: eval_comp eval_pool eval_suite cfg0_def hangingSuite_def worldWith_def
      hanging_def cong: eval_cong)

section \<open>Properties of the suite tree walker\<close>

subsection \<open>What every piece of a computation keeps\<close>















subsection \<open>What the workers of a batch keep\<close>


lemma pool_guar_set:
  "pool_guar G s0 p \<Longrightarrow> set ws = set (workers p) \<Longrightarrow> pool_guar G s0 (p\<lparr>workers := ws\<rparr>)"
  by (simp add: pool_guar_def)





subsection \<open>The context of the calls of a task\<close>















subsection \<open>The contexts of the calls of a suite\<close>

















text \<open>
  A suite whose cache of the after chain is \<open>null\<close> while that of the before chain is
  set: the run is fulfilled; the task of a test calls the body and ends, without an
  event, where it iterates \<open>after\<close>; the task of a test of the sub-suite runs the
  sub-suite's own \<open>afterEach\<close> hook and ends, without an event, at the entry \<open>null\<close>.
\<close>

lemma null_after_chain:
  "(case runSuite cfg0 halfCachedSuite None [] [] [0, 0, 0, 0, 0, 0, 0, 0] (worldWith 2 []) of
      (r, s, sch, w) \<Rightarrow> (r, trace w)) =
   (Fulfilled (),
    [Emit (TestStart ''adds''), CallBody ''adds'' 2,
     Emit (TestStart ''inner''), CallBody ''inner'' 3, CallHook ''cleanup'' 3,
     CallHook ''null'' 3])"
  by (simp add: eval_comp eval_pool eval_suite cfg0_def halfCachedSuite_def worldWith_def
      passing_def logHook_def cong: eval_cong)

section \<open>Properties of the toEqual matcher\<close>

lemma members_append: "members (ps @ qs) = members ps @ members qs"
  by (induction ps) (auto split: option.splits)

lemma undefined_member: "members (ps @ (k, Undefined) # qs) = members (ps @ qs)"
  by (simp add: members_append)

lemma distinct_digitChars: "distinct digitChars" and length_digitChars: "length digitChars = 16"
  by (simp_all add: digitChars_def)

lemma hex_inj:
  assumes "m < 32" "n < 32"
    and "digitChars ! (m div 16) = digitChars ! (n div 16)"
    and "digitChars ! (m mod 16) = digitChars ! (n mod 16)"
  shows "m = (n::nat)"
proof -
  have "m div 16 < 16" "n div 16 < 16" using assms(1,2) by simp_all
  with assms(3) have d: "m div 16 = n div 16"
    by (simp add: nth_eq_iff_index_eq distinct_digitChars length_digitChars)
  have "m mod 16 < 16" "n mod 16 < 16" by simp_all
  with assms(4) have "m mod 16 = n mod 16"
    by (simp add: nth_eq_iff_index_eq distinct_digitChars length_digitChars)
  with d show ?thesis by (metis div_mult_mod_eq)
qed

lemma escapeChar_prefix:
  assumes "escapeChar c @ X = escapeChar d @ Y"
  shows "c = d"
proof -
  have inj: "(of_char c :: nat) = of_char d \<Longrightarrow> c = d" by simp
  from assms show ?thesis
    unfolding escapeChar_def
    by (auto split: if_splits intro!: inj hex_inj)
qed

lemma escapeChar_start: "escapeChar c @ X \<noteq> CHR 0x22 # Y"
  by (auto simp: escapeChar_def)

lemma escaped_prefix:
  "concat (map escapeChar k1) @ CHR 0x22 # X = concat (map escapeChar k2) @ CHR 0x22 # Y \<Longrightarrow>
   k1 = k2"
proof (induction k1 arbitrary: k2)
  case Nil
  then show ?case
    by (cases k2) (use escapeChar_start in \<open>auto dest: sym\<close>)
next
  case (Cons c k1)
  show ?case
  proof (cases k2)
    case Nil
    with Cons.prems escapeChar_start show ?thesis by auto
  next
    case (Cons d k2')
    with Cons.prems have e: "escapeChar c @ (concat (map escapeChar k1) @ CHR 0x22 # X) =
        escapeChar d @ (concat (map escapeChar k2') @ CHR 0x22 # Y)" by simp
    then have cd: "c = d" by (rule escapeChar_prefix)
    with e have "concat (map escapeChar k1) @ CHR 0x22 # X =
        concat (map escapeChar k2') @ CHR 0x22 # Y" by simp
    with Cons.IH cd Cons show ?thesis by simp
  qed
qed

lemma quote_prefix: "quote k1 @ X = quote k2 @ Y \<Longrightarrow> k1 = k2"
  unfolding quote_def using escaped_prefix [of k1 X k2 Y] by simp

lemma digit_plain: "k < 10 \<Longrightarrow> digitChars ! k \<notin> specials"
proof -
  assume "k < 10"
  then have "k \<in> {0, 1, 2, 3, 4, 5, 6, 7, 8, 9}" by auto
  then show ?thesis by (auto simp: digitChars_def specials_def)
qed

lemma natString_plain: "plain (natString n)"
proof (induction n rule: natString.induct)
  case (1 n)
  show ?case
  proof (cases "n < 10")
    case True
    then show ?thesis
      by (subst natString.simps) (simp add: plain_def digit_plain)
  next
    case False
    have "n mod 10 < 10" by simp
    then have "digitChars ! (n mod 10) \<notin> specials" by (rule digit_plain)
    with 1 [OF False] False show ?thesis
      by (subst natString.simps) (simp add: plain_def)
  qed
qed

lemma numberString_plain: "plain (numberString i)"
  using natString_plain [of "nat (- i)"] natString_plain [of "nat i"]
  by (simp add: numberString_def plain_def specials_def)

lemma plain_prefix:
  assumes "plain s" "plain s'" "follows X" "follows Y" "s @ X = s' @ Y"
  shows "s = s'"
proof -
  from assms(5) obtain us where
    "(s = s' @ us \<and> us @ X = Y) \<or> (s @ us = s' \<and> X = us @ Y)"
    by (auto simp: append_eq_append_conv2)
  then show ?thesis
  proof
    assume a: "s = s' @ us \<and> us @ X = Y"
    show ?thesis
    proof (cases us)
      case Nil
      with a show ?thesis by simp
    next
      case (Cons c cs)
      with a have "hd Y = c" "Y \<noteq> []" "c \<in> set s" by auto
      with assms(1,4) show ?thesis
        by (auto simp: plain_def follows_def specials_def)
    qed
  next
    assume a: "s @ us = s' \<and> X = us @ Y"
    show ?thesis
    proof (cases us)
      case Nil
      with a show ?thesis by simp
    next
      case (Cons c cs)
      with a have "hd X = c" "X \<noteq> []" "c \<in> set s'" by auto
      with assms(2,3) show ?thesis
        by (auto simp: plain_def follows_def specials_def)
    qed
  qed
qed

text \<open>The first character of a text tells what kind of value it is the text of.\<close>

lemma plain_hd: "plain s \<Longrightarrow> hd s \<notin> specials"
  by (cases s) (auto simp: plain_def)

lemma text_cases:
  assumes "JSON_stringify v = Some s"
  shows "(plain s \<and> (\<forall>k. v \<noteq> Str k) \<and> (\<forall>xs. v \<noteq> Arr xs) \<and> (\<forall>ps. v \<noteq> Obj ps)) \<or>
         (\<exists>k. v = Str k \<and> s = quote k) \<or>
         (\<exists>xs. v = Arr xs \<and> s = CHR ''['' # commaSep (elements xs) @ '']'') \<or>
         (\<exists>ps. v = Obj ps \<and> s = CHR ''{'' # commaSep (members ps) @ ''}'')"
proof (cases v)
  case (Num n)
  with assms numberString_plain [of "sint n"] show ?thesis by auto
qed (use assms in \<open>auto simp: plain_def specials_def split: if_splits\<close>)

lemma text_hd:
  assumes "JSON_stringify v = Some s"
  shows "s \<noteq> [] \<and> hd s \<notin> {CHR '','', CHR '']'', CHR ''}''}"
  using text_cases [OF assms] plain_hd [of s]
  by (auto simp: plain_def specials_def quote_def)

lemma hd_append_eq: "s \<noteq> [] \<Longrightarrow> s' \<noteq> [] \<Longrightarrow> s @ X = s' @ Y \<Longrightarrow> hd s = hd s'"
  by (cases s; cases s') simp_all

lemma plain_tight:
  assumes "plain s" "JSON_stringify v' = Some s'" "follows X" "follows Y" "s @ X = s' @ Y"
  shows "s = s'"
proof -
  from assms(1) have n: "s \<noteq> []" and h: "hd s \<notin> specials"
    by (simp_all add: plain_def plain_hd)
  from text_hd [OF assms(2)] have n': "s' \<noteq> []" by simp
  from hd_append_eq [OF n n' assms(5)] h have "hd s' \<notin> specials" by simp
  with text_cases [OF assms(2)] have "plain s'"
    by (auto simp: specials_def quote_def)
  with assms show ?thesis by (blast intro: plain_prefix)
qed

lemma commaSep_step:
  "commaSep (e # r) = e @ (if r = [] then [] else CHR '','' # commaSep r)"
  by (cases r) simp_all

lemma starts_with:
  assumes "e \<noteq> []" "e @ R = c # X"
  shows "hd e = c"
  using assms by (cases e) simp_all

lemma commaSep_inj:
  assumes c: "c = CHR '']'' \<or> c = CHR ''}''"
  shows "(\<And>e e' X Y. e \<in> set es \<Longrightarrow> e' \<in> set es' \<Longrightarrow> follows X \<Longrightarrow> follows Y \<Longrightarrow>
             e @ X = e' @ Y \<Longrightarrow> e = e') \<Longrightarrow>
         (\<And>e. e \<in> set es \<union> set es' \<Longrightarrow> e \<noteq> [] \<and> hd e \<notin> {CHR '','', CHR '']'', CHR ''}''}) \<Longrightarrow>
         commaSep es @ c # X = commaSep es' @ c # Y \<Longrightarrow> es = es'"
proof (induction es arbitrary: es')
  case Nil
  show ?case
  proof (cases es')
    case Nil
    then show ?thesis by simp
  next
    case (Cons e' r')
    from Nil.prems(2) [of e'] Cons
    have n: "e' \<noteq> []" and h: "hd e' \<notin> {CHR '','', CHR '']'', CHR ''}''}"
      by simp_all
    from Nil.prems(3) Cons
    have "e' @ ((if r' = [] then [] else CHR '','' # commaSep r') @ c # Y) = c # X"
      by (simp add: commaSep_step)
    with n have "hd e' = c" by (rule starts_with)
    with h c show ?thesis by blast
  qed
next
  case (Cons e r)
  show ?case
  proof (cases es')
    case Nil
    from Cons.prems(2) [of e]
    have n: "e \<noteq> []" and h: "hd e \<notin> {CHR '','', CHR '']'', CHR ''}''}"
      by simp_all
    from Cons.prems(3) Nil
    have "e @ ((if r = [] then [] else CHR '','' # commaSep r) @ c # X) = c # Y"
      by (simp add: commaSep_step)
    with n have "hd e = c" by (rule starts_with)
    with h c show ?thesis by blast
  next
    case (Cons e' r')
    let ?R = "(if r = [] then [] else CHR '','' # commaSep r) @ c # X"
    let ?R' = "(if r' = [] then [] else CHR '','' # commaSep r') @ c # Y"
    from Cons.prems(3) Cons have eq: "e @ ?R = e' @ ?R'"
      by (simp add: commaSep_step)
    have f: "follows ?R" "follows ?R'"
      using c by (simp_all add: follows_def)
    have "e \<in> set (e # r)" "e' \<in> set es'" using Cons by simp_all
    from Cons.prems(1) [OF this f eq] have e: "e = e'" .
    with eq have rest: "?R = ?R'" by simp
    have cc: "c \<noteq> CHR '',''" using c by auto
    have "r = r'"
    proof (cases "r = []")
      case True
      show ?thesis
      proof (cases "r' = []")
        case True
        with \<open>r = []\<close> show ?thesis by simp
      next
        case False
        with rest \<open>r = []\<close> cc show ?thesis by simp
      qed
    next
      case False
      have r': "r' \<noteq> []"
      proof
        assume "r' = []"
        with rest False cc show False by simp
      qed
      with rest False have "commaSep r @ c # X = commaSep r' @ c # Y" by simp
      moreover have "\<And>e e' X Y. e \<in> set r \<Longrightarrow> e' \<in> set r' \<Longrightarrow> follows X \<Longrightarrow> follows Y \<Longrightarrow>
             e @ X = e' @ Y \<Longrightarrow> e = e'"
      proof -
        fix e e' X Y
        assume "e \<in> set r" "e' \<in> set r'" "follows X" "follows Y" "e @ X = e' @ Y"
        with Cons show "e = e'" by (intro Cons.prems(1) [of e e' X Y]) simp_all
      qed
      moreover have "\<And>e. e \<in> set r \<union> set r' \<Longrightarrow> e \<noteq> [] \<and> hd e \<notin> {CHR '','', CHR '']'', CHR ''}''}"
      proof -
        fix e
        assume "e \<in> set r \<union> set r'"
        with Cons have "e \<in> set (e0 # r) \<union> set es'" for e0 by auto
        then show "e \<noteq> [] \<and> hd e \<notin> {CHR '','', CHR '']'', CHR ''}''}"
          by (rule Cons.prems(2))
      qed
      ultimately show ?thesis by (rule Cons.IH [rotated 2])
    qed
    with e Cons show ?thesis by simp
  qed
qed

lemma elements_set:
  "e \<in> set (elements xs) \<Longrightarrow>
   (\<exists>x \<in> set xs. JSON_stringify x = Some e) \<or> e = ''null''"
  by (induction xs) (auto split: option.splits)

lemma members_set:
  "e \<in> set (members ps) \<Longrightarrow>
   \<exists>k v s. (k, v) \<in> set ps \<and> JSON_stringify v = Some s \<and> e = quote k @ '':'' @ s"
proof (induction ps)
  case Nil
  then show ?case by simp
next
  case (Cons p ps)
  obtain k v where p: "p = (k, v)" by (cases p)
  show ?case
  proof (cases "e \<in> set (members ps)")
    case True
    from Cons.IH [OF this] show ?thesis by auto
  next
    case False
    with Cons.prems p obtain s where "JSON_stringify v = Some s" "e = quote k @ '':'' @ s"
      by (auto split: option.splits)
    with p show ?thesis by auto
  qed
qed

lemma element_text: "e \<in> set (elements xs) \<Longrightarrow> \<exists>v. JSON_stringify v = Some e"
proof -
  assume "e \<in> set (elements xs)"
  from elements_set [OF this] show ?thesis
  proof
    assume "\<exists>x \<in> set xs. JSON_stringify x = Some e"
    then show ?thesis by blast
  next
    assume "e = ''null''"
    then have "JSON_stringify Null = Some e" by simp
    then show ?thesis by blast
  qed
qed

lemma elements_inj:
  assumes tight: "\<And>x s v' s' X Y. x \<in> set xs \<Longrightarrow> JSON_stringify x = Some s \<Longrightarrow>
       JSON_stringify v' = Some s' \<Longrightarrow> follows X \<Longrightarrow> follows Y \<Longrightarrow> s @ X = s' @ Y \<Longrightarrow> s = s'"
    and eq: "commaSep (elements xs) @ CHR '']'' # X = commaSep (elements xs') @ CHR '']'' # Y"
  shows "elements xs = elements xs'"
proof (rule commaSep_inj [OF _ _ _ eq])
  show "CHR '']'' = CHR '']'' \<or> CHR '']'' = CHR ''}''" by simp
next
  fix e e' X Y
  assume e: "e \<in> set (elements xs)" and e': "e' \<in> set (elements xs')"
    and f: "follows X" "follows Y" and a: "e @ X = e' @ Y"
  from element_text [OF e'] obtain v' where v': "JSON_stringify v' = Some e'" by blast
  from elements_set [OF e] show "e = e'"
  proof
    assume "\<exists>x \<in> set xs. JSON_stringify x = Some e"
    then obtain x where "x \<in> set xs" "JSON_stringify x = Some e" by blast
    then show ?thesis using v' f a by (rule tight)
  next
    assume "e = ''null''"
    then have "plain e" by (simp add: plain_def specials_def)
    then show ?thesis using v' f a by (rule plain_tight)
  qed
next
  fix e
  assume "e \<in> set (elements xs) \<union> set (elements xs')"
  then obtain v where "JSON_stringify v = Some e"
    using element_text by blast
  then show "e \<noteq> [] \<and> hd e \<notin> {CHR '','', CHR '']'', CHR ''}''}" by (rule text_hd)
qed

lemma members_inj:
  assumes tight: "\<And>k v s v' s' X Y. (k, v) \<in> set ps \<Longrightarrow> JSON_stringify v = Some s \<Longrightarrow>
       JSON_stringify v' = Some s' \<Longrightarrow> follows X \<Longrightarrow> follows Y \<Longrightarrow> s @ X = s' @ Y \<Longrightarrow> s = s'"
    and eq: "commaSep (members ps) @ CHR ''}'' # X = commaSep (members ps') @ CHR ''}'' # Y"
  shows "members ps = members ps'"
proof (rule commaSep_inj [OF _ _ _ eq])
  show "CHR ''}'' = CHR '']'' \<or> CHR ''}'' = CHR ''}''" by simp
next
  fix e e' X Y
  assume e: "e \<in> set (members ps)" and e': "e' \<in> set (members ps')"
    and f: "follows X" "follows Y" and a: "e @ X = e' @ Y"
  from members_set [OF e] obtain k v s where
    kv: "(k, v) \<in> set ps" and s: "JSON_stringify v = Some s" and es: "e = quote k @ '':'' @ s"
    by blast
  from members_set [OF e'] obtain k' v' s' where
    s': "JSON_stringify v' = Some s'" and es': "e' = quote k' @ '':'' @ s'"
    by blast
  from a es es' have q: "quote k @ ('':'' @ s @ X) = quote k' @ ('':'' @ s' @ Y)" by simp
  then have k: "k = k'" by (rule quote_prefix)
  with q have "s @ X = s' @ Y" by simp
  with kv s s' f have "s = s'" by (rule tight)
  with k es es' show "e = e'" by simp
next
  fix e
  assume "e \<in> set (members ps) \<union> set (members ps')"
  then obtain k s where "e = quote k @ '':'' @ s"
    using members_set by blast
  then show "e \<noteq> [] \<and> hd e \<notin> {CHR '','', CHR '']'', CHR ''}''}"
    by (simp add: quote_def)
qed

lemma text_tight:
  "JSON_stringify v = Some s \<Longrightarrow> JSON_stringify v' = Some s' \<Longrightarrow> follows X \<Longrightarrow> follows Y \<Longrightarrow>
   s @ X = s' @ Y \<Longrightarrow> s = s'"
proof (induction v arbitrary: v' s s' X Y)
  case (Str k)
  from Str.prems(1) have s: "s = quote k" by simp
  from text_hd [OF Str.prems(2)] have n': "s' \<noteq> []" by simp
  from s have "s \<noteq> []" "hd s = CHR 0x22" by (simp_all add: quote_def)
  with hd_append_eq [OF _ n' Str.prems(5)] have "hd s' = CHR 0x22" by simp
  with text_cases [OF Str.prems(2)] plain_hd [of s'] obtain k' where "s' = quote k'"
    by (auto simp: specials_def)
  with s Str.prems(5) quote_prefix [of k X k' Y] show ?case by simp
next
  case (Arr xs)
  from Arr.prems(1) have s: "s = CHR ''['' # commaSep (elements xs) @ '']''" by simp
  from text_hd [OF Arr.prems(2)] have n': "s' \<noteq> []" by simp
  from s have "s \<noteq> []" "hd s = CHR ''[''" by simp_all
  with hd_append_eq [OF _ n' Arr.prems(5)] have "hd s' = CHR ''[''" by simp
  with text_cases [OF Arr.prems(2)] plain_hd [of s'] obtain xs'
    where s': "s' = CHR ''['' # commaSep (elements xs') @ '']''"
    by (auto simp: specials_def quote_def)
  from s s' Arr.prems(5)
  have eq: "commaSep (elements xs) @ CHR '']'' # X = commaSep (elements xs') @ CHR '']'' # Y"
    by simp
  have "elements xs = elements xs'"
  proof (rule elements_inj [OF _ eq])
    fix x s v' s' X Y
    assume "x \<in> set xs" "JSON_stringify x = Some s" "JSON_stringify v' = Some s'"
      "follows X" "follows Y" "s @ X = s' @ Y"
    then show "s = s'" by (rule Arr.IH)
  qed
  with s s' show ?case by simp
next
  case (Obj ps)
  from Obj.prems(1) have s: "s = CHR ''{'' # commaSep (members ps) @ ''}''" by simp
  from text_hd [OF Obj.prems(2)] have n': "s' \<noteq> []" by simp
  from s have "s \<noteq> []" "hd s = CHR ''{''" by simp_all
  with hd_append_eq [OF _ n' Obj.prems(5)] have "hd s' = CHR ''{''" by simp
  with text_cases [OF Obj.prems(2)] plain_hd [of s'] obtain ps'
    where s': "s' = CHR ''{'' # commaSep (members ps') @ ''}''"
    by (auto simp: specials_def quote_def)
  from s s' Obj.prems(5)
  have eq: "commaSep (members ps) @ CHR ''}'' # X = commaSep (members ps') @ CHR ''}'' # Y"
    by simp
  have "members ps = members ps'"
  proof (rule members_inj [OF _ eq])
    fix k v s v' s' X Y
    assume "(k, v) \<in> set ps" "JSON_stringify v = Some s" "JSON_stringify v' = Some s'"
      "follows X" "follows Y" "s @ X = s' @ Y"
    moreover from this(1) have "v \<in> Basic_BNFs.snds (k, v)" by simp
    ultimately show "s = s'" using Obj.IH by blast
  qed
  with s s' show ?case by simp
next
  case Null
  then have "plain s" by (auto simp: plain_def specials_def)
  then show ?case using Null.prems(2-5) by (rule plain_tight)
next
  case (Bool b)
  then have "plain s" by (auto simp: plain_def specials_def split: if_splits)
  then show ?case using Bool.prems(2-5) by (rule plain_tight)
next
  case (Num n)
  then have "plain s" using numberString_plain [of "sint n"] by auto
  then show ?case using Num.prems(2-5) by (rule plain_tight)
qed simp_all

lemma members_written:
  "members ps =
     map (\<lambda>(k, v). quote k @ '':'' @ template (JSON_stringify v))
       (filter (\<lambda>(k, v). JSON_stringify v \<noteq> None) ps)"
  by (induction ps) (auto simp: template_def split: option.splits)

lemma written_keys:
  "map (\<lambda>(k, v). quote k @ '':'' @ template (JSON_stringify v)) xs =
   map (\<lambda>(k, v). quote k @ '':'' @ template (JSON_stringify v)) ys \<Longrightarrow>
   map fst xs = map fst (ys :: (string \<times> jsval) list)"
proof (induction xs arbitrary: ys)
  case Nil
  then show ?case by simp
next
  case (Cons x xs)
  then obtain y ys' where ys: "ys = y # ys'" by (cases ys) auto
  obtain k v k' v' where x: "x = (k, v)" and y: "y = (k', v')"
    by (cases x; cases y) auto
  from Cons.prems ys x y
  have "quote k @ ('':'' @ template (JSON_stringify v)) =
        quote k' @ ('':'' @ template (JSON_stringify v'))" by simp
  then have "k = k'" by (rule quote_prefix)
  with Cons ys x y show ?case by simp
qed

lemma same_text_same_keys:
  assumes "JSON_stringify (Obj ps) = JSON_stringify (Obj qs)"
  shows "writtenKeys ps = writtenKeys qs"
proof -
  from assms
  have eq: "commaSep (members ps) @ CHR ''}'' # [] = commaSep (members qs) @ CHR ''}'' # []"
    by simp
  have "members ps = members qs"
    by (rule members_inj [OF _ eq]) (rule text_tight)
  then show ?thesis
    unfolding writtenKeys_def members_written by (rule written_keys)
qed

text \<open>
  Claim C10 says that objects with the same keys inserted in different orders compare
  unequal. Two objects with the keys \<open>a\<close> and \<open>b\<close>, in the two orders, where \<open>a\<close> holds
  \<open>undefined\<close>: both are written \<open>{"b":1}\<close>, and the matcher succeeds.
\<close>

theorem key_order_counterexample:
  "toEqual (Obj [(''a'', Undefined), (''b'', Num 1)]) (Obj [(''b'', Num 1), (''a'', Undefined)]) =
     Inr ()"
  by (simp add: toEqual_def)

text \<open>
  Claim C10, amended. \<open>expect(a).toEqual(b)\<close> succeeds exactly when \<open>JSON.stringify(a)\<close>
  and \<open>JSON.stringify(b)\<close> are equal. Under this equality a property whose value is
  \<open>undefined\<close> does not count, wherever it stands in the object; and two objects are
  unequal whenever the keys of the properties that are written, taken in the order in
  which the objects enumerate them, are not the same list: the same written properties
  in another order compare unequal.
\<close>

theorem toEqual_serialization:
  "(toEqual a b = Inr () \<longleftrightarrow> JSON_stringify a = JSON_stringify b) \<and>
   toEqual (Obj (ps @ (k, Undefined) # qs)) (Obj (ps @ qs)) = Inr () \<and>
   (writtenKeys ps' \<noteq> writtenKeys qs' \<longrightarrow> toEqual (Obj ps') (Obj qs') \<noteq> Inr ())"
proof (intro conjI impI)
  show "toEqual a b = Inr () \<longleftrightarrow> JSON_stringify a = JSON_stringify b"
    by (simp add: toEqual_def)
  show "toEqual (Obj (ps @ (k, Undefined) # qs)) (Obj (ps @ qs)) = Inr ()"
    by (simp add: toEqual_def undefined_member)
next
  assume a: "writtenKeys ps' \<noteq> writtenKeys qs'"
  show "toEqual (Obj ps') (Obj qs') \<noteq> Inr ()"
  proof
    assume "toEqual (Obj ps') (Obj qs') = Inr ()"
    then have "JSON_stringify (Obj ps') = JSON_stringify (Obj qs')"
      by (simp add: toEqual_def split: if_splits)
    then have "writtenKeys ps' = writtenKeys qs'" by (rule same_text_same_keys)
    with a show False by simp
  qed
qed

theorem toEqual_serialization_witness:
  "toEqual (Obj [(''a'', Num 1), (''b'', Undefined)]) (Obj [(''a'', Num 1)]) = Inr () \<and>
   toEqual (Obj [(''a'', Num 1), (''b'', Num 2), (''c'', Num 3)])
     (Obj [(''a'', Num 1), (''c'', Num 3), (''b'', Num 2)]) \<noteq> Inr ()"
proof -
  note t = toEqual_serialization [where a = Null and b = Null
      and ps = "[(''a'', Num 1)]" and k = "''b''" and qs = "[]"
      and ps' = "[(''a'', Num 1), (''b'', Num 2), (''c'', Num 3)]"
      and qs' = "[(''a'', Num 1), (''c'', Num 3), (''b'', Num 2)]"]
  from t have "toEqual (Obj ([(''a'', Num 1)] @ (''b'', Undefined) # []))
      (Obj ([(''a'', Num 1)] @ [])) = Inr ()"
    by blast
  then have u: "toEqual (Obj [(''a'', Num 1), (''b'', Undefined)]) (Obj [(''a'', Num 1)]) = Inr ()"
    by simp
  have k: "writtenKeys [(''a'', Num 1), (''b'', Num 2), (''c'', Num 3)] \<noteq>
           writtenKeys [(''a'', Num 1), (''c'', Num 3), (''b'', Num 2)]"
    by (simp add: writtenKeys_def)
  from t k
  have "toEqual (Obj [(''a'', Num 1), (''b'', Num 2), (''c'', Num 3)])
      (Obj [(''a'', Num 1), (''c'', Num 3), (''b'', Num 2)]) \<noteq> Inr ()"
    by blast
  with u show ?thesis by blast
qed

section \<open>A test with the skip option\<close>

text \<open>
  Claim C3 says that a test whose skip flag is set is never executed. The test that
  \<open>it('skipped', {skip: true}, fn)\<close> registers has the flag set; the filter of
  \<open>testsToRun\<close> does not read it, and the run of the suite calls the body and emits
  \<open>testStart\<close> and \<open>testPass\<close> for the test.
\<close>

theorem skip_option_is_run:
  "t_skip (hd (tests skippedSuite)) \<and>
   (case runSuite cfg0 skippedSuite None [] [] [0, 0, 0, 0] (worldWith 1 []) of
      (r, s, sch, w) \<Rightarrow> (r, trace w, globals (memory w))) =
   (Fulfilled (),
    [Emit (TestStart ''skipped''), CallBody ''skipped'' 1, Emit (TestPass ''skipped'' 0)],
    [''skipped''])"
  by (simp add: eval_comp eval_pool eval_suite cfg0_def skippedSuite_def newSuite_def
      newTest_def noOptions_def worldWith_def passing_def cong: eval_cong)

end
